theory Spec2Isabelle
  imports Complex_Main "HOL-Library.Multiset" "HOL-Library.AList"
begin

section \<open>Scalar helpers of the internal-coordinate transform\<close>

text \<open>
  Tensors hold real numbers in this development: the claims are stated over exact
  real arithmetic. The remainder operator of Python and torch on floats,
  \<^verbatim>\<open>a % b\<close>, takes the sign of the divisor: \<^verbatim>\<open>a - b * floor(a / b)\<close>.
\<close>

definition py_mod :: "real \<Rightarrow> real \<Rightarrow> real" where
  "py_mod a b = a - b * of_int \<lfloor>a / b\<rfloor>"

text \<open>
  \<^verbatim>\<open>_fix_dih\<close> (internal.py, lines 297-300), on one entry of the dihedral columns:
  \<^verbatim>\<open>dih = (dih + math.pi) % (2 * math.pi) - math.pi\<close>.
\<close>

definition fix_dih_val :: "real \<Rightarrow> real" where
  "fix_dih_val dih = py_mod (dih + pi) (2 * pi) - pi"

text \<open>
  The two \<^verbatim>\<open>torch.where\<close> lines of \<^verbatim>\<open>inverse\<close> (internal.py, lines 247-249),
  on one entry:
  \<^verbatim>\<open>dihs = torch.where(dihs < math.pi, dihs + 2 * math.pi, dihs)\<close>
  \<^verbatim>\<open>dihs = torch.where(dihs > math.pi, dihs - 2 * math.pi, dihs)\<close>
\<close>

definition inverse_fix_dih :: "real \<Rightarrow> real" where
  "inverse_fix_dih dihs =
     (let dihs1 = (if dihs < pi then dihs + 2 * pi else dihs)
      in if dihs1 > pi then dihs1 - 2 * pi else dihs1)"

section \<open>Errors\<close>

text \<open>
  The exceptions the construction can raise: \<^verbatim>\<open>ValueError\<close> from
  \<^verbatim>\<open>_validate_data\<close>, \<^verbatim>\<open>AssertionError\<close> from the anchor count assertion,
  \<^verbatim>\<open>RuntimeError\<close> from \<^verbatim>\<open>topological_sort\<close> and from torch, \<^verbatim>\<open>IndexError\<close>
  from an index out of range, \<^verbatim>\<open>NameError\<close> from reading a loop variable that was
  never bound.
\<close>

datatype error = ValueError | AssertionError | RuntimeError | IndexError | NameError

section \<open>The dependency graph and its topological sort\<close>

text \<open>
  A Python \<^verbatim>\<open>dict\<close> keeps its keys in insertion order, so it is an association
  list with distinct keys. \<^verbatim>\<open>dict(pairs)\<close> inserts the pairs from left to right: a
  key met again keeps its place and takes the new value, which is what
  \<^const>\<open>AList.update\<close> does.
\<close>

definition dict_of :: "('k \<times> 'v) list \<Rightarrow> ('k \<times> 'v) list" where
  "dict_of kvs = foldl (\<lambda>d kv. AList.update (fst kv) (snd kv) d) [] kvs"

text \<open>
  The \<^verbatim>\<open>for node, edges in list(graph_unsorted.items())\<close> loop of
  \<^verbatim>\<open>topological_sort\<close> (internal.py, lines 447-454). It runs over a snapshot of
  the items, while \<^verbatim>\<open>edge in graph_unsorted\<close> reads the dictionary as it is at
  that moment, after the deletions made earlier in the same scan. The state is the
  dictionary, the sorted list and the flag \<^verbatim>\<open>acyclic\<close> (here \<open>acyclic_flag\<close>).
\<close>

fun scan_items :: "('a \<times> 'a list) list \<Rightarrow> ('a \<times> 'a list) list \<times> ('a \<times> 'a list) list \<times> bool
    \<Rightarrow> ('a \<times> 'a list) list \<times> ('a \<times> 'a list) list \<times> bool" where
  "scan_items [] st = st"
| "scan_items ((node, edges) # items) (graph_unsorted, graph_sorted, acyclic_flag) =
     (if list_ex (\<lambda>edge. edge \<in> set (map fst graph_unsorted)) edges
      then scan_items items (graph_unsorted, graph_sorted, acyclic_flag)
      else scan_items items
             (AList.delete node graph_unsorted, graph_sorted @ [(node, edges)], True))"

lemma scan_items_length:
  "scan_items items (u, s, a) = (u', s', a') \<Longrightarrow>
     length u' \<le> length u \<and>
     (a' \<and> \<not> a \<and> set (map fst items) \<subseteq> set (map fst u) \<longrightarrow> length u' < length u)"
proof (induction items arbitrary: u s a)
  case Nil
  then show ?case by auto
next
  case (Cons x items)
  obtain node edges where x: "x = (node, edges)" by (cases x)
  show ?case
  proof (cases "list_ex (\<lambda>edge. edge \<in> set (map fst u)) edges")
    case True
    then have "scan_items items (u, s, a) = (u', s', a')"
      using Cons.prems x by simp
    from Cons.IH[OF this] show ?thesis by auto
  next
    case False
    then have r: "scan_items items (AList.delete node u, s @ [(node, edges)], True) = (u', s', a')"
      using Cons.prems x by simp
    have le: "length u' \<le> length (AList.delete node u)"
      using Cons.IH[OF r] by simp
    have d1: "length (AList.delete node u) \<le> length u"
      by (simp add: AList.delete_eq)
    have d2: "length (AList.delete node u) < length u" if "(node, v) \<in> set u" for v
      using that unfolding AList.delete_eq by (rule length_filter_less) simp
    show ?thesis
    proof (intro conjI impI)
      show "length u' \<le> length u" using le d1 by linarith
    next
      assume "a' \<and> \<not> a \<and> set (map fst (x # items)) \<subseteq> set (map fst u)"
      then have "node \<in> fst ` set u" using x by auto
      then obtain v where "(node, v) \<in> set u" by auto
      from d2[OF this] le show "length u' < length u" by linarith
    qed
  qed
qed

text \<open>
  The \<^verbatim>\<open>while graph_unsorted\<close> loop (internal.py, lines 445-457): one scan, then
  \<^verbatim>\<open>raise RuntimeError\<close> when the scan removed nothing. Every pass that goes on
  has removed a node, so the loop ends.
\<close>

function topological_loop :: "('a \<times> 'a list) list \<Rightarrow> ('a \<times> 'a list) list
    \<Rightarrow> error + ('a \<times> 'a list) list" where
  "topological_loop graph_unsorted graph_sorted =
     (if graph_unsorted = [] then Inr graph_sorted
      else (case scan_items graph_unsorted (graph_unsorted, graph_sorted, False) of
              (graph_unsorted', graph_sorted', acyclic_flag) \<Rightarrow>
                if \<not> acyclic_flag then Inl RuntimeError
                else topological_loop graph_unsorted' graph_sorted'))"
  by pat_completeness auto
termination
  apply (relation "measure (\<lambda>(u, s). length u)")
   apply simp
  apply clarsimp
  apply (drule sym)
  apply (drule scan_items_length)
  apply simp
  done

declare topological_loop.simps [simp del]

definition topological_sort :: "('a \<times> 'a list) list \<Rightarrow> error + ('a \<times> 'a list) list" where
  "topological_sort graph_unsorted = topological_loop (dict_of graph_unsorted) []"

text \<open>
  The dependency relation of a specification: an atom depends on each of its reference
  atoms that is itself a key of the dictionary. A specification is acyclic when this
  relation is.
\<close>

definition dep_rel :: "('a \<times> 'a list) list \<Rightarrow> ('a \<times> 'a) set" where
  "dep_rel g = {(n, e). \<exists>es. (n, es) \<in> set g \<and> e \<in> set es \<and> e \<in> fst ` set g}"

text \<open>
  The invariant of the sort: no entry of the sorted list refers to a key still unsorted
  (\<open>K\<close>), to itself, or to a key sorted later.
\<close>

definition topo_valid :: "('a \<times> 'a list) list \<Rightarrow> 'a set \<Rightarrow> bool" where
  "topo_valid s K =
     (\<forall>i<length s. \<forall>e\<in>set (snd (s ! i)).
        e \<notin> K \<and> (\<forall>j. i \<le> j \<and> j < length s \<longrightarrow> fst (s ! j) \<noteq> e))"

lemma topo_valid_snoc:
  assumes "topo_valid s K" "n \<in> K" "set es \<inter> K = {}" "K' \<subseteq> K - {n}"
  shows "topo_valid (s @ [(n, es)]) K'"
  unfolding topo_valid_def
proof (intro allI impI ballI)
  fix i e
  assume i: "i < length (s @ [(n, es)])" and e: "e \<in> set (snd ((s @ [(n, es)]) ! i))"
  show "e \<notin> K' \<and> (\<forall>j. i \<le> j \<and> j < length (s @ [(n, es)]) \<longrightarrow> fst ((s @ [(n, es)]) ! j) \<noteq> e)"
  proof (cases "i < length s")
    case True
    then have e': "e \<in> set (snd (s ! i))" using e by (simp add: nth_append)
    with assms(1) True have a: "e \<notin> K" and b: "\<And>j. i \<le> j \<Longrightarrow> j < length s \<Longrightarrow> fst (s ! j) \<noteq> e"
      unfolding topo_valid_def by blast+
    from a assms(2) have "e \<noteq> n" by blast
    with a b assms(4) show ?thesis
      by (auto simp: nth_append less_Suc_eq)
  next
    case False
    then have il: "i = length s" using i by simp
    then have "e \<in> set es" using e by simp
    with assms(3) have a: "e \<notin> K" by blast
    with assms(2) have "e \<noteq> n" by blast
    with a assms(4) il show ?thesis
      by (auto simp: nth_append)
  qed
qed

lemma topo_validD:
  assumes "topo_valid s K" "i < length s" "e \<in> set (snd (s ! i))" "i \<le> j" "j < length s"
  shows "fst (s ! j) \<noteq> e"
proof -
  from assms(1,2) have "\<forall>e\<in>set (snd (s ! i)).
        e \<notin> K \<and> (\<forall>j. i \<le> j \<and> j < length s \<longrightarrow> fst (s ! j) \<noteq> e)"
    unfolding topo_valid_def by blast
  with assms(3) have "\<forall>j. i \<le> j \<and> j < length s \<longrightarrow> fst (s ! j) \<noteq> e" by blast
  with assms(4,5) show ?thesis by blast
qed

lemma topo_valid_mono: "topo_valid s K \<Longrightarrow> K' \<subseteq> K \<Longrightarrow> topo_valid s K'"
  unfolding topo_valid_def by blast

lemma set_delete_distinct:
  "distinct (map fst u) \<Longrightarrow> (n, es) \<in> set u \<Longrightarrow> set (AList.delete n u) = set u - {(n, es)}"
  by (auto simp: AList.delete_eq dest: eq_key_imp_eq_value)

lemma scan_items_inv:
  assumes "scan_items items (u, s, a) = (u', s', a')"
    and "distinct (map fst items)" "set items \<subseteq> set u"
    and "distinct (map fst (s @ u))" "topo_valid s (fst ` set u)"
  shows "distinct (map fst (s' @ u')) \<and> topo_valid s' (fst ` set u')
       \<and> set (s' @ u') = set (s @ u) \<and> set u' \<subseteq> set u
       \<and> (a \<longrightarrow> a')
       \<and> (\<not> a' \<longrightarrow> u' = u \<and> s' = s
             \<and> (\<forall>p\<in>set items. \<exists>e\<in>set (snd p). e \<in> fst ` set u))"
  using assms
proof (induction items arbitrary: u s a)
  case Nil
  then show ?case by auto
next
  case (Cons x items)
  obtain node edges where x: "x = (node, edges)" by (cases x)
  show ?case
  proof (cases "list_ex (\<lambda>edge. edge \<in> set (map fst u)) edges")
    case True
    then have r: "scan_items items (u, s, a) = (u', s', a')"
      using Cons.prems(1) x by simp
    have "distinct (map fst items)" "set items \<subseteq> set u" using Cons.prems by auto
    from Cons.IH[OF r this Cons.prems(4,5)] True x show ?thesis
      by (auto simp: list_ex_iff)
  next
    case False
    then have r: "scan_items items (AList.delete node u, s @ [(node, edges)], True) = (u', s', a')"
      using Cons.prems(1) x by simp
    have inu: "(node, edges) \<in> set u" using Cons.prems(3) x by simp
    have du: "distinct (map fst u)" using Cons.prems(4) by simp
    have sd: "set (AList.delete node u) = set u - {(node, edges)}"
      by (rule set_delete_distinct[OF du inu])
    have kd: "fst ` set (AList.delete node u) = fst ` set u - {node}"
      by (auto simp: AList.delete_eq)
    have 1: "distinct (map fst items)" using Cons.prems(2) by simp
    have 2: "set items \<subseteq> set (AList.delete node u)"
      using Cons.prems(2,3) x unfolding sd by force
    have ns: "node \<notin> fst ` set s"
    proof
      assume "node \<in> fst ` set s"
      moreover have "node \<in> fst ` set u" using inu by force
      ultimately show False using Cons.prems(4) by auto
    qed
    have 3: "distinct (map fst ((s @ [(node, edges)]) @ AList.delete node u))"
      using Cons.prems(4) ns by (auto simp: AList.delete_eq distinct_map_filter)
    have nk: "set edges \<inter> fst ` set u = {}" using False by (auto simp: list_ex_iff)
    have 4: "topo_valid (s @ [(node, edges)]) (fst ` set (AList.delete node u))"
    proof (rule topo_valid_snoc[OF Cons.prems(5) _ nk])
      show "node \<in> fst ` set u" using inu by force
      show "fst ` set (AList.delete node u) \<subseteq> fst ` set u - {node}" using kd by simp
    qed
    from Cons.IH[OF r 1 2 3 4] sd inu show ?thesis
      by auto
  qed
qed

lemma no_sink_not_acyclic:
  assumes "u \<noteq> []" "set u \<subseteq> set d"
    and "\<forall>p\<in>set u. \<exists>e\<in>set (snd p). e \<in> fst ` set u"
  shows "\<not> acyclic (dep_rel d)"
proof
  assume ac: "acyclic (dep_rel d)"
  have "dep_rel d \<subseteq> fst ` set d \<times> fst ` set d"
    unfolding dep_rel_def by force
  then have "finite (dep_rel d)" by (rule finite_subset) simp
  then have wf: "wf ((dep_rel d)\<inverse>)" using ac by (rule finite_acyclic_wf_converse)
  obtain p0 where "p0 \<in> set u" using assms(1) by (cases u) auto
  then have "fst p0 \<in> fst ` set u" by simp
  from wfE_min[OF wf this] obtain z where z: "z \<in> fst ` set u"
    and m: "\<And>y. (y, z) \<in> (dep_rel d)\<inverse> \<Longrightarrow> y \<notin> fst ` set u" by blast
  from z obtain es where p: "(z, es) \<in> set u" by auto
  with assms(3) obtain e where e: "e \<in> set es" "e \<in> fst ` set u" by force
  have "(z, e) \<in> dep_rel d" unfolding dep_rel_def using p e assms(2) by auto
  with m[of e] e(2) show False by simp
qed

lemma topo_valid_acyclic:
  assumes "topo_valid r {}" "distinct (map fst r)"
  shows "acyclic (dep_rel r)"
proof -
  define pos where "pos k = (LEAST i. i < length r \<and> fst (r ! i) = k)" for k
  have pos: "pos (fst (r ! i)) = i" if "i < length r" for i
  proof -
    have "\<And>j. j < length r \<and> fst (r ! j) = fst (r ! i) \<Longrightarrow> j = i"
      using assms(2) that by (metis distinct_conv_nth length_map nth_map)
    then show ?thesis unfolding pos_def using that by (intro Least_equality) auto
  qed
  have "(dep_rel r)\<inverse> \<subseteq> measure pos"
  proof
    fix x assume "x \<in> (dep_rel r)\<inverse>"
    then obtain n e es where x: "x = (e, n)" and p: "(n, es) \<in> set r" and e: "e \<in> set es" "e \<in> fst ` set r"
      unfolding dep_rel_def by auto
    from p obtain i where i: "i < length r" "r ! i = (n, es)" by (auto simp: in_set_conv_nth)
    from e(2) obtain j where j: "j < length r" "fst (r ! j) = e" by (auto simp: in_set_conv_nth)
    have "e \<in> set (snd (r ! i))" using i(2) e(1) by simp
    then have "\<not> i \<le> j" using topo_validD[OF assms(1) i(1) _ _ j(1)] j(2) by blast
    then have "j < i" by simp
    moreover have "pos e = j" "pos n = i" using pos[OF j(1)] pos[OF i(1)] i j by auto
    ultimately show "x \<in> measure pos" using x by simp
  qed
  then have "wf ((dep_rel r)\<inverse>)" by (rule wf_subset[OF wf_measure])
  then have "acyclic ((dep_rel r)\<inverse>)" by (rule wf_acyclic)
  then show ?thesis by simp
qed

lemma dep_rel_cong: "set a = set b \<Longrightarrow> dep_rel a = dep_rel b"
  unfolding dep_rel_def by simp

lemma topological_loop_inv:
  assumes "distinct (map fst (s @ u))" "topo_valid s (fst ` set u)" "set (s @ u) = set d"
  shows "(case topological_loop u s of
            Inr r \<Rightarrow> distinct (map fst r) \<and> topo_valid r {} \<and> set r = set d
          | Inl e \<Rightarrow> e = RuntimeError \<and> \<not> acyclic (dep_rel d))"
  using assms
proof (induction u s rule: topological_loop.induct)
  case (1 u s)
  show ?case
  proof (cases "u = []")
    case True
    then show ?thesis using "1.prems" by (simp add: topological_loop.simps[of "[]"])
  next
    case False
    obtain u' s' a' where sc: "scan_items u (u, s, False) = (u', s', a')"
      by (cases "scan_items u (u, s, False)") auto
    have du: "distinct (map fst u)" using "1.prems"(1) by simp
    from scan_items_inv[OF sc du subset_refl "1.prems"(1,2)]
    have inv: "distinct (map fst (s' @ u'))" "topo_valid s' (fst ` set u')"
      "set (s' @ u') = set (s @ u)" "set u' \<subseteq> set u"
      and stuck: "\<not> a' \<Longrightarrow> \<forall>p\<in>set u. \<exists>e\<in>set (snd p). e \<in> fst ` set u"
      by blast+
    show ?thesis
    proof (cases a')
      case True
      have "topological_loop u s = topological_loop u' s'"
        using False sc True by (subst topological_loop.simps) simp
      moreover have "case topological_loop u' s' of
            Inr r \<Rightarrow> distinct (map fst r) \<and> topo_valid r {} \<and> set r = set d
          | Inl e \<Rightarrow> e = RuntimeError \<and> \<not> acyclic (dep_rel d)"
        proof (rule "1.IH"[OF False sc[symmetric] refl _ inv(1,2)])
        show "\<not> \<not> a'" using True by simp
        show "set (s' @ u') = set d" using inv(3) "1.prems"(3) by simp
      qed
      ultimately show ?thesis by simp
    next
      case F: False
      have "topological_loop u s = Inl RuntimeError"
        using False sc F by (subst topological_loop.simps) simp
      moreover have "set u \<subseteq> set d" using "1.prems"(3) by auto
      from no_sink_not_acyclic[OF False this stuck[OF F]] have "\<not> acyclic (dep_rel d)" .
      ultimately show ?thesis by simp
    qed
  qed
qed

lemma distinct_dict_of: "distinct (map fst (dict_of g))"
proof -
  have "distinct (map fst d) \<Longrightarrow> distinct (map fst (foldl (\<lambda>d kv. AList.update (fst kv) (snd kv) d) d g))" for d
    by (induction g arbitrary: d) (auto simp: distinct_update)
  then show ?thesis unfolding dict_of_def by simp
qed

lemma topological_sort_Inr:
  assumes "topological_sort g = Inr s"
  shows "set s = set (dict_of g)" and "distinct (map fst s)" and "topo_valid s {}"
    and "acyclic (dep_rel (dict_of g))"
proof -
  have inv: "case topological_loop (dict_of g) [] of
            Inr r \<Rightarrow> distinct (map fst r) \<and> topo_valid r {} \<and> set r = set (dict_of g)
          | Inl e \<Rightarrow> e = RuntimeError \<and> \<not> acyclic (dep_rel (dict_of g))"
    by (rule topological_loop_inv) (simp_all add: distinct_dict_of topo_valid_def)
  from assms have "topological_loop (dict_of g) [] = Inr s" by (simp add: topological_sort_def)
  with inv show "set s = set (dict_of g)" and "distinct (map fst s)" and "topo_valid s {}"
    by simp_all
  then show "acyclic (dep_rel (dict_of g))"
    using topo_valid_acyclic[of s] dep_rel_cong[of s "dict_of g"] by simp
qed

lemma topological_sort_acyclic:
  assumes "acyclic (dep_rel (dict_of g))"
  shows "\<exists>s. topological_sort g = Inr s"
proof -
  have inv: "case topological_loop (dict_of g) [] of
            Inr r \<Rightarrow> distinct (map fst r) \<and> topo_valid r {} \<and> set r = set (dict_of g)
          | Inl e \<Rightarrow> e = RuntimeError \<and> \<not> acyclic (dep_rel (dict_of g))"
    by (rule topological_loop_inv) (simp_all add: distinct_dict_of topo_valid_def)
  then show ?thesis using assms unfolding topological_sort_def
    by (cases "topological_loop (dict_of g) []") simp_all
qed

lemma keys_dict_of: "fst ` set (dict_of g) = fst ` set g"
proof -
  have "fst ` set (foldl (\<lambda>d kv. AList.update (fst kv) (snd kv) d) d g) = fst ` set d \<union> fst ` set g" for d
  proof (induction g arbitrary: d)
    case Nil
    then show ?case by simp
  next
    case (Cons kv g)
    have "fst ` set (AList.update (fst kv) (snd kv) d) = insert (fst kv) (fst ` set d)"
      using dom_update[of "fst kv" "snd kv" d] by simp
    then show ?case using Cons.IH[of "AList.update (fst kv) (snd kv) d"] by auto
  qed
  from this[of "[]"] show ?thesis unfolding dict_of_def by simp
qed

text \<open>
  C3: for an acyclic specification \<^verbatim>\<open>topological_sort\<close> returns a list that holds
  every entry of the dictionary once and in which every reference of an atom that is
  itself a z-matrix atom stands strictly earlier (references to anchors are not in the
  list: they are placed from the start); for a cyclic specification it raises the
  \<^verbatim>\<open>RuntimeError\<close> "A cyclic dependency occured." and returns no list.
\<close>

theorem topological_sort_valid:
  "(acyclic (dep_rel (dict_of g)) \<longrightarrow>
      (\<exists>s. topological_sort g = Inr s \<and> set s = set (dict_of g) \<and> distinct (map fst s)
         \<and> (\<forall>i<length s. \<forall>e\<in>set (snd (s ! i)).
               e \<in> fst ` set (dict_of g) \<longrightarrow> (\<exists>j<i. fst (s ! j) = e))))
   \<and> (\<not> acyclic (dep_rel (dict_of g)) \<longrightarrow> topological_sort g = Inl RuntimeError)"
proof -
  have inv: "case topological_loop (dict_of g) [] of
            Inr r \<Rightarrow> distinct (map fst r) \<and> topo_valid r {} \<and> set r = set (dict_of g)
          | Inl e \<Rightarrow> e = RuntimeError \<and> \<not> acyclic (dep_rel (dict_of g))"
    by (rule topological_loop_inv) (simp_all add: distinct_dict_of topo_valid_def)
  show ?thesis
  proof (cases "topological_loop (dict_of g) []")
    case (Inl e)
    then show ?thesis using inv by (simp add: topological_sort_def)
  next
    case (Inr r)
    then have r: "distinct (map fst r)" "topo_valid r {}" "set r = set (dict_of g)"
      using inv by simp_all
    have ac: "acyclic (dep_rel (dict_of g))"
      using topo_valid_acyclic[OF r(2,1)] dep_rel_cong[OF r(3)] by simp
    have ord: "\<exists>j<i. fst (r ! j) = e"
      if "i < length r" "e \<in> set (snd (r ! i))" "e \<in> fst ` set (dict_of g)" for i e
    proof -
      from that(3) r(3) have "e \<in> fst ` set r" by simp
      then obtain j where j: "j < length r" "fst (r ! j) = e"
        by (auto simp: in_set_conv_nth)
      have "\<not> i \<le> j" using topo_validD[OF r(2) that(1,2) _ j(1)] j(2) by blast
      then have "j < i" by simp
      with j(2) show ?thesis by blast
    qed
    have "topological_sort g = Inr r" using Inr by (simp add: topological_sort_def)
    moreover have "\<forall>i<length r. \<forall>e\<in>set (snd (r ! i)).
               e \<in> fst ` set (dict_of g) \<longrightarrow> (\<exists>j<i. fst (r ! j) = e)"
      using ord by blast
    ultimately show ?thesis using ac r(1,3) by blast
  qed
qed

theorem topological_sort_valid_witness:
  "acyclic (dep_rel (dict_of [(3::nat, [2, 1, 0]), (4, [3, 1, 0])]))
   \<and> (\<exists>s. topological_sort [(3::nat, [2, 1, 0]), (4, [3, 1, 0])] = Inr s
          \<and> set s = set (dict_of [(3::nat, [2, 1, 0]), (4, [3, 1, 0])]))
   \<and> \<not> acyclic (dep_rel (dict_of [(3::nat, [4, 1, 0]), (4, [3, 1, 2])]))
   \<and> topological_sort [(3::nat, [4, 1, 0]), (4, [3, 1, 2])] = Inl RuntimeError"
proof -
  have d1: "dep_rel (dict_of [(3::nat, [2, 1, 0]), (4, [3, 1, 0])]) = {(4, 3)}"
    unfolding dep_rel_def dict_of_def by auto
  have h1: "acyclic (dep_rel (dict_of [(3::nat, [2, 1, 0]), (4, [3, 1, 0])]))"
  proof -
    have "acyclic ({} :: (nat \<times> nat) set)" by (simp add: acyclic_def)
    then show ?thesis unfolding d1 by (simp add: acyclic_insert)
  qed
  have d2: "dep_rel (dict_of [(3::nat, [4, 1, 0]), (4, [3, 1, 2])]) = {(3, 4), (4, 3)}"
    unfolding dep_rel_def dict_of_def by auto
  have "(3::nat, 3) \<in> {(3, 4), (4, 3)}\<^sup>+"
    by (rule trancl_trans[of _ 4]) auto
  then have h2: "\<not> acyclic (dep_rel (dict_of [(3::nat, [4, 1, 0]), (4, [3, 1, 2])]))"
    unfolding d2 acyclic_def by blast
  show ?thesis
    using h1 h2 topological_sort_valid[of "[(3::nat, [2, 1, 0]), (4, [3, 1, 0])]"]
      topological_sort_valid[of "[(3::nat, [4, 1, 0]), (4, [3, 1, 2])]"]
    by blast
qed

section \<open>Vectors and the geometry helpers\<close>

text \<open>
  A point or a vector of three coordinates; the operations are the torch operations the
  source applies along the last dimension: subtraction, addition, scaling, division by
  a scalar, \<^verbatim>\<open>torch.sum(a * b, dim=2)\<close>, \<^verbatim>\<open>torch.cross\<close> and \<^verbatim>\<open>torch.norm\<close>.
\<close>

type_synonym vec3 = "real \<times> real \<times> real"

fun vsub :: "vec3 \<Rightarrow> vec3 \<Rightarrow> vec3" where
  "vsub (a1, a2, a3) (b1, b2, b3) = (a1 - b1, a2 - b2, a3 - b3)"

fun vadd :: "vec3 \<Rightarrow> vec3 \<Rightarrow> vec3" where
  "vadd (a1, a2, a3) (b1, b2, b3) = (a1 + b1, a2 + b2, a3 + b3)"

fun vscale :: "vec3 \<Rightarrow> real \<Rightarrow> vec3" where
  "vscale (a1, a2, a3) c = (a1 * c, a2 * c, a3 * c)"

fun vdivs :: "vec3 \<Rightarrow> real \<Rightarrow> vec3" where
  "vdivs (a1, a2, a3) c = (a1 / c, a2 / c, a3 / c)"

fun vdot :: "vec3 \<Rightarrow> vec3 \<Rightarrow> real" where
  "vdot (a1, a2, a3) (b1, b2, b3) = a1 * b1 + a2 * b2 + a3 * b3"

fun vcross :: "vec3 \<Rightarrow> vec3 \<Rightarrow> vec3" where
  "vcross (a1, a2, a3) (b1, b2, b3) = (a2 * b3 - a3 * b2, a3 * b1 - a1 * b3, a1 * b2 - a2 * b1)"

fun vnorm :: "vec3 \<Rightarrow> real" where
  "vnorm (a1, a2, a3) = sqrt (a1 * a1 + a2 * a2 + a3 * a3)"

text \<open>
  \<^verbatim>\<open>torch.atan2(y, x)\<close> over the reals: the angle of the point \<open>(x, y)\<close> in
  \<open>(-\<pi>, \<pi>]\<close>, and 0 at the origin.
\<close>

definition atan2 :: "real \<Rightarrow> real \<Rightarrow> real" where
  "atan2 y x =
     (if 0 < x then arctan (y / x)
      else if x < 0 then (if 0 \<le> y then arctan (y / x) + pi else arctan (y / x) - pi)
      else if 0 < y then pi / 2
      else if y < 0 then - (pi / 2)
      else 0)"

text \<open>
  \<^verbatim>\<open>calc_bonds\<close>, \<^verbatim>\<open>calc_angles\<close> and \<^verbatim>\<open>calc_dihedrals\<close> (internal.py, lines
  15-62) for one batch row and one atom: the arguments are the gathered points, in the
  order of the source's parameters. The divisions by a norm are divisions of reals:
  where two of the points coincide the norm is zero, torch computes \<^verbatim>\<open>nan\<close>, and
  the quotient here is 0. Statements about angles and dihedrals therefore assume that
  the points are apart.
\<close>

definition bond_of :: "vec3 \<Rightarrow> vec3 \<Rightarrow> real" where
  "bond_of p1 p2 = vnorm (vsub p2 p1)"

definition angle_of :: "vec3 \<Rightarrow> vec3 \<Rightarrow> vec3 \<Rightarrow> real" where
  "angle_of b c d =
     (let bc = vsub b c;
          bc = vdivs bc (vnorm bc);
          cd = vsub d c;
          cd = vdivs cd (vnorm cd);
          cos_angle = vdot bc cd
      in arccos cos_angle)"

definition dihedral_of :: "vec3 \<Rightarrow> vec3 \<Rightarrow> vec3 \<Rightarrow> vec3 \<Rightarrow> real" where
  "dihedral_of a b c d =
     (let b0 = vsub a b;
          b1 = vsub c b;
          b1 = vdivs b1 (vnorm b1);
          b2 = vsub d c;
          v = vsub b0 (vscale b1 (vdot b0 b1));
          w = vsub b2 (vscale b1 (vdot b2 b1));
          x = vdot v w;
          b1xv = vcross b1 v;
          y = vdot b1xv w;
          angle = atan2 y x
      in - angle)"

text \<open>
  Indexing one batch row with a row of three column indices, \<^verbatim>\<open>coords[:, ind]\<close>.
\<close>

type_synonym ind3 = "nat \<times> nat \<times> nat"

fun gather3 :: "real list \<Rightarrow> ind3 \<Rightarrow> vec3" where
  "gather3 coords (i, j, k) = (coords ! i, coords ! j, coords ! k)"

definition calc_bonds :: "ind3 list \<Rightarrow> ind3 list \<Rightarrow> real list \<Rightarrow> real list" where
  "calc_bonds ind1 ind2 coords =
     map2 (\<lambda>i1 i2. bond_of (gather3 coords i1) (gather3 coords i2)) ind1 ind2"

definition calc_angles :: "ind3 list \<Rightarrow> ind3 list \<Rightarrow> ind3 list \<Rightarrow> real list \<Rightarrow> real list" where
  "calc_angles ind1 ind2 ind3 coords =
     map (\<lambda>(i1, i2, i3). angle_of (gather3 coords i1) (gather3 coords i2) (gather3 coords i3))
       (zip ind1 (zip ind2 ind3))"

definition calc_dihedrals ::
    "ind3 list \<Rightarrow> ind3 list \<Rightarrow> ind3 list \<Rightarrow> ind3 list \<Rightarrow> real list \<Rightarrow> real list" where
  "calc_dihedrals ind1 ind2 ind3 ind4 coords =
     map (\<lambda>(i1, i2, i3, i4). dihedral_of (gather3 coords i1) (gather3 coords i2)
                                (gather3 coords i3) (gather3 coords i4))
       (zip ind1 (zip ind2 (zip ind3 ind4)))"

text \<open>
  \<^verbatim>\<open>reconstruct_cart\<close> (internal.py, lines 65-104) for one batch row and one atom
  of the block: the position of the new atom from its three reference positions, and
  the atom's term of the log Jacobian, which the source sums over the block.
\<close>

definition reconstruct_atom :: "vec3 \<Rightarrow> vec3 \<Rightarrow> vec3 \<Rightarrow> real \<Rightarrow> real \<Rightarrow> real \<Rightarrow> vec3" where
  "reconstruct_atom p1 p2 p3 bonds angles dihs =
     (let v1 = vsub p1 p2;
          v2 = vsub p1 p3;
          n = vcross v1 v2;
          n = vdivs n (vnorm n);
          nn = vcross v1 n;
          nn = vdivs nn (vnorm nn);
          n = vscale n (sin dihs);
          nn = vscale nn (cos dihs);
          v3 = vadd n nn;
          v3 = vdivs v3 (vnorm v3);
          v3 = vscale (vscale v3 bonds) (sin angles);
          v1 = vdivs v1 (vnorm v1);
          v1 = vscale (vscale v1 bonds) (cos angles)
      in vsub (vadd p1 v3) v1)"

definition jac_term :: "real \<Rightarrow> real \<Rightarrow> real" where
  "jac_term bonds angles = 2 * ln \<bar>bonds\<bar> + ln \<bar>sin angles\<bar>"

definition reconstruct_cart ::
    "vec3 list \<Rightarrow> ind3 list \<Rightarrow> real list \<Rightarrow> real list \<Rightarrow> real list \<Rightarrow> vec3 list \<times> real" where
  "reconstruct_cart cart ref_atoms bonds angles dihs =
     (let jac = sum_list (map2 jac_term bonds angles);
          new_cart = map (\<lambda>((r1, r2, r3), b, a, d).
                        reconstruct_atom (cart ! r1) (cart ! r2) (cart ! r3) b a d)
                       (zip ref_atoms (zip bonds (zip angles dihs)))
      in (new_cart, jac))"

section \<open>Index setup and the block scheduler\<close>

text \<open>
  A z-matrix row after \<^verbatim>\<open>[item[0], item[1][0], item[1][1], item[1][2]]\<close>: the atom
  and its three reference atoms. Atom indices are natural numbers (negative Python
  indices are outside the input type).
\<close>

type_synonym quad = "nat \<times> nat \<times> nat \<times> nat"

text \<open>
  The test of the scan, \<^verbatim>\<open>(atom2 in all_cart) and (atom3 in all_cart) and (atom4 in
  all_cart)\<close>, the four atoms of a row and its three references.
\<close>

definition placeable :: "nat set \<Rightarrow> quad \<Rightarrow> bool" where
  "placeable ac q = (case q of (a1, a2, a3, a4) \<Rightarrow> a2 \<in> ac \<and> a3 \<in> ac \<and> a4 \<in> ac)"

definition quad_atoms :: "quad \<Rightarrow> nat set" where
  "quad_atoms q = (case q of (a1, a2, a3, a4) \<Rightarrow> {a1, a2, a3, a4})"

definition quad_refs :: "quad \<Rightarrow> nat set" where
  "quad_refs q = (case q of (a1, a2, a3, a4) \<Rightarrow> {a2, a3, a4})"

text \<open>
  \<^verbatim>\<open>[item[0], item[1][0], item[1][1], item[1][2]]\<close>: an \<^verbatim>\<open>IndexError\<close> when an
  atom has fewer than three references; further references are dropped.
\<close>

fun to_quads :: "(nat \<times> nat list) list \<Rightarrow> error + quad list" where
  "to_quads [] = Inr []"
| "to_quads ((a, r1 # r2 # r3 # rs) # items) =
     (case to_quads items of Inl e \<Rightarrow> Inl e | Inr qs \<Rightarrow> Inr ((a, r1, r2, r3) # qs))"
| "to_quads ((a, rs) # items) = Inl IndexError"

text \<open>The slices \<^verbatim>\<open>modified_indices[k::3]\<close>, for \<open>k\<close> = 0, 1, 2, as \<open>stride3 (drop k xs)\<close>.\<close>

fun stride3 :: "'a list \<Rightarrow> 'a list" where
  "stride3 (a # b # c # xs) = a # stride3 xs"
| "stride3 (a # xs) = [a]"
| "stride3 [] = []"

text \<open>
  The body of \<^verbatim>\<open>for atom1, atom2, atom3, atom4 in sorted_z_indices\<close> (internal.py,
  lines 393-416), over the rows still to place. The state is \<^verbatim>\<open>next_z_indices\<close>,
  \<^verbatim>\<open>next_cart\<close>, the block, \<^verbatim>\<open>rev_perm\<close>, \<^verbatim>\<open>rev_perm_inv\<close> and
  \<^verbatim>\<open>current_cart_ind\<close>; a write or read outside a buffer is an \<^verbatim>\<open>IndexError\<close>.

  \<^verbatim>\<open>self.rev_perm_inv[atom2]\<close> is a zero-dimensional view of the buffer, and the
  block is turned into a tensor by \<^verbatim>\<open>torch.as_tensor\<close> only after the scan: the
  three positions are read then. The block therefore collects the reference atoms, and
  \<open>resolve_block\<close> reads their positions at the end of the scan.
\<close>

fun block_scan :: "nat set \<Rightarrow> quad list
    \<Rightarrow> quad list \<times> nat set \<times> quad list \<times> nat list \<times> nat list \<times> nat
    \<Rightarrow> error + quad list \<times> nat set \<times> quad list \<times> nat list \<times> nat list \<times> nat" where
  "block_scan all_cart [] st = Inr st"
| "block_scan all_cart ((atom1, atom2, atom3, atom4) # rest)
       (next_z_indices, next_cart, block, rev_perm, rev_perm_inv, current_cart_ind) =
     (if atom2 \<in> all_cart \<and> atom3 \<in> all_cart \<and> atom4 \<in> all_cart
      then
        if length rev_perm \<le> current_cart_ind \<or> length rev_perm_inv \<le> atom1
           \<or> length rev_perm_inv \<le> atom2 \<or> length rev_perm_inv \<le> atom3
           \<or> length rev_perm_inv \<le> atom4
        then Inl IndexError
        else block_scan all_cart rest
               (next_z_indices, insert atom1 next_cart, block @ [(atom1, atom2, atom3, atom4)],
                rev_perm[current_cart_ind := atom1], rev_perm_inv[atom1 := current_cart_ind],
                current_cart_ind + 1)
      else block_scan all_cart rest
             (next_z_indices @ [(atom1, atom2, atom3, atom4)], next_cart, block,
              rev_perm, rev_perm_inv, current_cart_ind))"

fun resolve_block :: "nat list \<Rightarrow> quad \<Rightarrow> quad" where
  "resolve_block rev_perm_inv (atom1, atom2, atom3, atom4) =
     (atom1, rev_perm_inv ! atom2, rev_perm_inv ! atom3, rev_perm_inv ! atom4)"

text \<open>
  The \<^verbatim>\<open>while sorted_z_indices\<close> loop (internal.py, lines 389-420). A scan that
  places no atom leaves the rows and \<^verbatim>\<open>all_cart\<close> as they were, and the source
  loops forever: the loop is a partial function, and not returning is \<open>None\<close>.
\<close>

partial_function (option) block_loop :: "quad list \<Rightarrow> nat set \<Rightarrow> nat list \<Rightarrow> nat list \<Rightarrow> nat
    \<Rightarrow> quad list list \<Rightarrow> (error + quad list list \<times> nat list \<times> nat list) option" where
  "block_loop sorted_z_indices all_cart rev_perm rev_perm_inv current_cart_ind blocks =
     (if sorted_z_indices = [] then Some (Inr (blocks, rev_perm, rev_perm_inv))
      else (case block_scan all_cart sorted_z_indices
                   ([], {}, [], rev_perm, rev_perm_inv, current_cart_ind) of
              Inl e \<Rightarrow> Some (Inl e)
            | Inr (next_z_indices, next_cart, block, rev_perm', rev_perm_inv', current_cart_ind') \<Rightarrow>
                block_loop next_z_indices (all_cart \<union> next_cart) rev_perm' rev_perm_inv'
                  current_cart_ind' (blocks @ [map (resolve_block rev_perm_inv') block])))"

text \<open>
  The two \<^verbatim>\<open>enumerate\<close> loops that fill a buffer by index: \<^verbatim>\<open>buf[j] = i\<close> for
  \<^verbatim>\<open>atom_to_stats\<close> and \<^verbatim>\<open>rev_perm_inv\<close>, \<^verbatim>\<open>buf[i] = j\<close> for \<^verbatim>\<open>rev_perm\<close>.
\<close>

fun fill_inverse :: "nat \<Rightarrow> nat list \<Rightarrow> nat list \<Rightarrow> error + nat list" where
  "fill_inverse i [] buf = Inr buf"
| "fill_inverse i (j # js) buf =
     (if length buf \<le> j then Inl IndexError else fill_inverse (i + 1) js (buf[j := i]))"

fun fill_direct :: "nat \<Rightarrow> nat list \<Rightarrow> nat list \<Rightarrow> error + nat list" where
  "fill_direct i [] buf = Inr buf"
| "fill_direct i (j # js) buf =
     (if length buf \<le> i then Inl IndexError else fill_direct (i + 1) js (buf[i := j]))"

text \<open>
  The anchor loop \<^verbatim>\<open>for i, j in enumerate(cart_indices)\<close> writes \<^verbatim>\<open>rev_perm[i]\<close>
  and then \<^verbatim>\<open>rev_perm_inv[j]\<close> in each round.
\<close>

fun fill_anchors :: "nat \<Rightarrow> nat list \<Rightarrow> nat list \<Rightarrow> nat list \<Rightarrow> error + nat list \<times> nat list" where
  "fill_anchors i [] rev_perm rev_perm_inv = Inr (rev_perm, rev_perm_inv)"
| "fill_anchors i (j # js) rev_perm rev_perm_inv =
     (if length rev_perm \<le> i \<or> length rev_perm_inv \<le> j then Inl IndexError
      else fill_anchors (i + 1) js (rev_perm[i := j]) (rev_perm_inv[j := i]))"

text \<open>
  \<^verbatim>\<open>current_cart_ind = i + 1\<close> reads the variable \<^verbatim>\<open>i\<close> that the last loop to run
  left behind: the anchor loop, else the \<^verbatim>\<open>atom_to_stats\<close> loop, else the
  \<^verbatim>\<open>range(n_atoms)\<close> loop; when none of them ran, the name is unbound. The
  source's list \<^verbatim>\<open>mod\<close> is \<open>mod_atoms\<close> here.
\<close>

definition first_cart_ind :: "nat \<Rightarrow> nat list \<Rightarrow> nat list \<Rightarrow> error + nat" where
  "first_cart_ind n_atoms mod_atoms cart_indices =
     (if cart_indices \<noteq> [] then Inr (length cart_indices)
      else if mod_atoms \<noteq> [] then Inr (length mod_atoms)
      else if 0 < n_atoms then Inr n_atoms
      else Inl NameError)"

text \<open>The buffers that \<^verbatim>\<open>_setup_indices\<close> registers (internal.py, lines 327-421).\<close>

record indices =
  inds_for_atom :: "ind3 list"
  modified_indices :: "nat list"
  bond_indices :: "nat list"
  angle_indices :: "nat list"
  dih_indices :: "nat list"
  sorted_z_indices :: "quad list"
  rev_z_indices :: "quad list"
  atom_to_stats :: "nat list"
  rev_perm :: "nat list"
  rev_perm_inv :: "nat list"
  init_cart_indices :: "nat list"
  rev_blocks :: "quad list list"

definition flat3 :: "ind3 \<Rightarrow> nat list" where
  "flat3 t = (case t of (i, j, k) \<Rightarrow> [i, j, k])"

definition sort_z_indices :: "(nat \<times> nat list) list \<Rightarrow> error + quad list" where
  "sort_z_indices z_indices =
     (case topological_sort z_indices of Inl e \<Rightarrow> Inl e | Inr sorted_items \<Rightarrow> to_quads sorted_items)"

text \<open>
  The buffers that do not depend on the block loop, as \<^verbatim>\<open>_setup_indices\<close> computes
  and registers them (internal.py, lines 328-377), and the record of all buffers once
  the loop has returned the blocks and the two permutation vectors.
\<close>

definition make_inds_for_atom :: "nat \<Rightarrow> ind3 list" where
  "make_inds_for_atom n_atoms = map (\<lambda>i. (3 * i, 3 * i + 1, 3 * i + 2)) [0..<n_atoms]"

definition make_modified_indices :: "nat \<Rightarrow> nat list \<Rightarrow> nat list" where
  "make_modified_indices n_atoms mod_atoms =
     concat (map (\<lambda>index. flat3 (make_inds_for_atom n_atoms ! index)) mod_atoms)"

definition make_indices :: "nat \<Rightarrow> quad list \<Rightarrow> nat list \<Rightarrow> nat list
    \<Rightarrow> quad list list \<times> nat list \<times> nat list \<Rightarrow> indices" where
  "make_indices n_atoms sorted_z cart_indices ats res =
     (case res of (blocks, rp, rpi) \<Rightarrow>
       \<lparr>inds_for_atom = make_inds_for_atom n_atoms,
        modified_indices = make_modified_indices n_atoms (map fst sorted_z),
        bond_indices = stride3 (make_modified_indices n_atoms (map fst sorted_z)),
        angle_indices = stride3 (drop 1 (make_modified_indices n_atoms (map fst sorted_z))),
        dih_indices = stride3 (drop 2 (make_modified_indices n_atoms (map fst sorted_z))),
        sorted_z_indices = sorted_z,
        rev_z_indices = rev sorted_z,
        atom_to_stats = ats,
        rev_perm = rp,
        rev_perm_inv = rpi,
        init_cart_indices = concat (map (\<lambda>c. flat3 (make_inds_for_atom n_atoms ! c)) cart_indices),
        rev_blocks = blocks\<rparr>)"

text \<open>
  \<^verbatim>\<open>_setup_indices\<close> (internal.py, lines 327-421), with its failures in the order
  of the source: the topological sort, the rows with fewer than three references, a
  z-matrix atom outside \<^verbatim>\<open>inds_for_atom\<close>, the \<^verbatim>\<open>atom_to_stats\<close> loop, an anchor
  outside \<^verbatim>\<open>inds_for_atom\<close>, the anchor loop, \<^verbatim>\<open>current_cart_ind = i + 1\<close>, and
  the block loop.
\<close>

definition setup_indices :: "nat \<Rightarrow> (nat \<times> nat list) list \<Rightarrow> nat list \<Rightarrow> (error + indices) option" where
  "setup_indices dims z_indices cart_indices =
     (let n_atoms = dims div 3
      in (case sort_z_indices z_indices of
            Inl e \<Rightarrow> Some (Inl e)
          | Inr sorted_z \<Rightarrow>
             (if \<exists>index \<in> set (map fst sorted_z). n_atoms \<le> index then Some (Inl IndexError)
              else
               (case fill_inverse 0 (map fst sorted_z) (replicate n_atoms 0) of
                  Inl e \<Rightarrow> Some (Inl e)
                | Inr ats \<Rightarrow>
                   (if \<exists>c \<in> set cart_indices. n_atoms \<le> c then Some (Inl IndexError)
                    else
                     (case fill_anchors 0 cart_indices
                             (replicate n_atoms 0) (replicate n_atoms 0) of
                        Inl e \<Rightarrow> Some (Inl e)
                      | Inr (rp, rpi) \<Rightarrow>
                         (case first_cart_ind n_atoms (map fst sorted_z) cart_indices of
                            Inl e \<Rightarrow> Some (Inl e)
                          | Inr current_cart_ind \<Rightarrow>
                             (case block_loop sorted_z (set cart_indices) rp rpi
                                     current_cart_ind [] of
                                None \<Rightarrow> None
                              | Some r \<Rightarrow>
                                 (case r of
                                    Inl e \<Rightarrow> Some (Inl e)
                                  | Inr res \<Rightarrow>
                                     Some (Inr (make_indices n_atoms sorted_z cart_indices
                                                  ats res)))))))))))"

section \<open>Properties of the block scheduler\<close>

lemma block_scan_skip:
  "\<not> placeable ac q \<Longrightarrow>
     block_scan ac (q # items) (nz, nc, blk, rp, rpi, cur)
       = block_scan ac items (nz @ [q], nc, blk, rp, rpi, cur)"
  by (cases q) (auto simp: placeable_def)

lemma block_scan_place:
  "placeable ac q \<Longrightarrow>
     block_scan ac (q # items) (nz, nc, blk, rp, rpi, cur)
       = (if length rp \<le> cur \<or> (\<exists>a\<in>quad_atoms q. length rpi \<le> a) then Inl IndexError
          else block_scan ac items
                 (nz, insert (fst q) nc, blk @ [q], rp[cur := fst q], rpi[fst q := cur], cur + 1))"
  by (cases q) (auto simp: placeable_def quad_atoms_def)

lemma block_scan_result:
  assumes "block_scan ac items (nz, nc, blk, rp, rpi, cur) = Inr (nz', nc', blk', rp', rpi', cur')"
  shows "nz' = nz @ filter (\<lambda>q. \<not> placeable ac q) items
       \<and> blk' = blk @ filter (placeable ac) items
       \<and> nc' = nc \<union> fst ` set (filter (placeable ac) items)
       \<and> cur' = cur + length (filter (placeable ac) items)
       \<and> length rp' = length rp \<and> length rpi' = length rpi
       \<and> (filter (placeable ac) items \<noteq> [] \<longrightarrow> cur' \<le> length rp)
       \<and> (\<forall>q\<in>set (filter (placeable ac) items). \<forall>a\<in>quad_atoms q. a < length rpi)
       \<and> (\<forall>p. p < cur \<or> cur' \<le> p \<longrightarrow> rp' ! p = rp ! p)
       \<and> (\<forall>j<length (filter (placeable ac) items).
             rp' ! (cur + j) = fst (filter (placeable ac) items ! j))
       \<and> (\<forall>b. b \<notin> fst ` set (filter (placeable ac) items) \<longrightarrow> rpi' ! b = rpi ! b)
       \<and> (distinct (map fst items) \<longrightarrow>
            (\<forall>j<length (filter (placeable ac) items).
               rpi' ! fst (filter (placeable ac) items ! j) = cur + j))"
  using assms
proof (induction items arbitrary: nz nc blk rp rpi cur)
  case Nil
  then show ?case by simp
next
  case (Cons q items)
  obtain a1 a2 a3 a4 where q: "q = (a1, a2, a3, a4)" by (cases q)
  show ?case
  proof (cases "placeable ac q")
    case False
    then have r: "block_scan ac items (nz @ [q], nc, blk, rp, rpi, cur) = Inr (nz', nc', blk', rp', rpi', cur')"
      using Cons.prems by (simp add: block_scan_skip)
    have f: "filter (placeable ac) (q # items) = filter (placeable ac) items"
      "filter (\<lambda>q. \<not> placeable ac q) (q # items) = q # filter (\<lambda>q. \<not> placeable ac q) items"
      using False by simp_all
    have d: "distinct (map fst (q # items)) \<Longrightarrow> distinct (map fst items)" by simp
    have n: "(nz @ [q]) @ filter (\<lambda>q. \<not> placeable ac q) items
        = nz @ q # filter (\<lambda>q. \<not> placeable ac q) items" by simp
    show ?thesis unfolding f using Cons.IH[OF r] d unfolding n by blast
  next
    case True
    let ?P = "filter (placeable ac) items"
    from True Cons.prems have g: "\<not> (length rp \<le> cur \<or> (\<exists>a\<in>quad_atoms q. length rpi \<le> a))"
      by (auto simp: block_scan_place split: if_splits)
    then have ok: "cur < length rp" "a1 < length rpi" "a2 < length rpi"
      "a3 < length rpi" "a4 < length rpi"
      using q by (auto simp: quad_atoms_def)
    have r: "block_scan ac items (nz, insert a1 nc, blk @ [q], rp[cur := a1], rpi[a1 := cur], cur + 1)
        = Inr (nz', nc', blk', rp', rpi', cur')"
    proof -
      have "block_scan ac (q # items) (nz, nc, blk, rp, rpi, cur)
          = block_scan ac items
                 (nz, insert (fst q) nc, blk @ [q], rp[cur := fst q], rpi[fst q := cur], cur + 1)"
        using g by (simp only: block_scan_place[OF True] if_False)
      with Cons.prems show ?thesis by (simp add: q)
    qed
    note IH = Cons.IH[OF r]
    have f: "filter (placeable ac) (q # items) = q # ?P" using True by simp
    have 1: "nz' = nz @ filter (\<lambda>q. \<not> placeable ac q) (q # items)" using IH True by simp
    have 2: "blk' = blk @ filter (placeable ac) (q # items)" using IH True by simp
    have 3: "nc' = nc \<union> fst ` set (filter (placeable ac) (q # items))" using IH True q by auto
    have 4: "cur' = cur + length (filter (placeable ac) (q # items))" using IH True by simp
    have 5: "length rp' = length rp \<and> length rpi' = length rpi" using IH by simp
    have 6: "cur' \<le> length rp"
    proof (cases "?P = []")
      case True then show ?thesis using IH ok by simp
    next
      case False then show ?thesis using IH by simp
    qed
    have 7: "\<forall>q\<in>set (filter (placeable ac) (q # items)). \<forall>a\<in>quad_atoms q. a < length rpi"
      using IH ok q unfolding f by (auto simp: quad_atoms_def)
    have 8: "\<forall>p. p < cur \<or> cur' \<le> p \<longrightarrow> rp' ! p = rp ! p"
    proof (intro allI impI)
      fix p assume p: "p < cur \<or> cur' \<le> p"
      have "cur < cur'" using 4 f by simp
      with p have pc: "p < cur + 1 \<or> cur' \<le> p" "p \<noteq> cur" by auto
      with IH have "rp' ! p = rp[cur := a1] ! p" by blast
      with pc(2) show "rp' ! p = rp ! p" by simp
    qed
    have 9: "\<forall>j<length (filter (placeable ac) (q # items)). rp' ! (cur + j) = fst (filter (placeable ac) (q # items) ! j)"
    proof (intro allI impI)
      fix j assume j: "j < length (filter (placeable ac) (q # items))"
      show "rp' ! (cur + j) = fst (filter (placeable ac) (q # items) ! j)"
      proof (cases j)
        case 0
        have "rp' ! cur = rp[cur := a1] ! cur" using IH by simp
        then show ?thesis using 0 f q ok by simp
      next
        case (Suc k)
        then have "k < length ?P" using j f by simp
        with IH have "rp' ! (cur + 1 + k) = fst (?P ! k)" by blast
        then show ?thesis using Suc f by simp
      qed
    qed
    have 10: "\<forall>b. b \<notin> fst ` set (filter (placeable ac) (q # items)) \<longrightarrow> rpi' ! b = rpi ! b"
    proof (intro allI impI)
      fix b assume b: "b \<notin> fst ` set (filter (placeable ac) (q # items))"
      then have ba: "b \<noteq> a1" "b \<notin> fst ` set ?P" using f q by auto
      with IH have "rpi' ! b = rpi[a1 := cur] ! b" by blast
      with ba(1) show "rpi' ! b = rpi ! b" by simp
    qed
    have 11: "distinct (map fst (q # items)) \<longrightarrow>
            (\<forall>j<length (filter (placeable ac) (q # items)).
               rpi' ! fst (filter (placeable ac) (q # items) ! j) = cur + j)"
    proof (intro allI impI)
      fix j assume d: "distinct (map fst (q # items))" and j: "j < length (filter (placeable ac) (q # items))"
      show "rpi' ! fst (filter (placeable ac) (q # items) ! j) = cur + j"
      proof (cases j)
        case 0
        have "a1 \<notin> fst ` set ?P" using d q by auto
        with IH have "rpi' ! a1 = rpi[a1 := cur] ! a1" by blast
        then show ?thesis using 0 f q ok by simp
      next
        case (Suc k)
        then have "k < length ?P" using j f by simp
        moreover have "distinct (map fst items)" using d by simp
        ultimately have "rpi' ! fst (?P ! k) = cur + 1 + k" using IH by blast
        then show ?thesis using Suc f by simp
      qed
    qed
    show ?thesis using 1 2 3 4 5 6 7 8 9 10 11 by blast
  qed
qed

lemma placeable_refs: "placeable ac q \<longleftrightarrow> quad_refs q \<subseteq> ac"
  by (cases q) (auto simp: placeable_def quad_refs_def)

lemma resolve_block_cong:
  "\<forall>r\<in>quad_refs q. rpi' ! r = rpi ! r \<Longrightarrow> resolve_block rpi' q = resolve_block rpi q"
  by (cases q) (auto simp: quad_refs_def)

text \<open>
  The invariant of the block loop. \<open>raw\<close> holds the blocks with the reference atoms
  themselves, \<open>blocks\<close> their positions in the Cartesian buffer; \<open>SZ\<close> is the full
  sorted z-matrix, \<open>rp0\<close> and \<open>rpi0\<close> are the permutation vectors after the anchor
  loop, \<open>c0\<close> is the first value of \<^verbatim>\<open>current_cart_ind\<close>.
\<close>

definition loop_inv :: "nat list \<Rightarrow> nat \<Rightarrow> quad list \<Rightarrow> nat list \<Rightarrow> nat list
    \<Rightarrow> quad list \<Rightarrow> nat set \<Rightarrow> nat list \<Rightarrow> nat list \<Rightarrow> nat \<Rightarrow> quad list list
    \<Rightarrow> quad list list \<Rightarrow> bool" where
  "loop_inv cart c0 SZ rp0 rpi0 sz ac rp rpi cur blocks raw =
     (blocks = map (map (resolve_block rpi)) raw
      \<and> ac = set cart \<union> fst ` set (concat raw)
      \<and> cur = c0 + length (concat raw)
      \<and> mset (concat raw) + mset sz = mset SZ
      \<and> length rp = length rp0 \<and> length rpi = length rpi0
      \<and> (\<forall>a\<in>ac. a < length rpi)
      \<and> (\<forall>a. a \<notin> fst ` set (concat raw) \<longrightarrow> rpi ! a = rpi0 ! a)
      \<and> (\<forall>p. p < c0 \<or> cur \<le> p \<longrightarrow> rp ! p = rp0 ! p)
      \<and> (\<forall>j<length (concat raw).
             rpi ! fst (concat raw ! j) = c0 + j \<and> rp ! (c0 + j) = fst (concat raw ! j))
      \<and> (concat raw \<noteq> [] \<longrightarrow> cur \<le> length rp)
      \<and> (\<forall>k<length raw. \<forall>q\<in>set (raw ! k).
             quad_refs q \<subseteq> set cart \<union> fst ` set (concat (take k raw)))
      \<and> sz = filter (\<lambda>q. fst q \<notin> ac) SZ)"

lemma loop_invD:
  assumes "loop_inv cart c0 SZ rp0 rpi0 sz ac rp rpi cur blocks raw"
  shows "blocks = map (map (resolve_block rpi)) raw"
    and "ac = set cart \<union> fst ` set (concat raw)"
    and "cur = c0 + length (concat raw)"
    and "mset (concat raw) + mset sz = mset SZ"
    and "length rp = length rp0" and "length rpi = length rpi0"
    and "\<forall>a\<in>ac. a < length rpi"
    and "\<forall>a. a \<notin> fst ` set (concat raw) \<longrightarrow> rpi ! a = rpi0 ! a"
    and "\<forall>p. p < c0 \<or> cur \<le> p \<longrightarrow> rp ! p = rp0 ! p"
    and "\<forall>j<length (concat raw).
             rpi ! fst (concat raw ! j) = c0 + j \<and> rp ! (c0 + j) = fst (concat raw ! j)"
    and "concat raw \<noteq> [] \<longrightarrow> cur \<le> length rp"
    and "\<forall>k<length raw. \<forall>q\<in>set (raw ! k).
             quad_refs q \<subseteq> set cart \<union> fst ` set (concat (take k raw))"
    and "sz = filter (\<lambda>q. fst q \<notin> ac) SZ"
  using assms unfolding loop_inv_def by - (elim conjE, assumption)+

lemma loop_inv_step:
  assumes inv: "loop_inv cart c0 SZ rp0 rpi0 sz ac rp rpi cur blocks raw"
    and dS: "distinct (map fst SZ)" and dj: "fst ` set SZ \<inter> set cart = {}"
    and sc: "block_scan ac sz ([], {}, [], rp, rpi, cur) = Inr (nz, nc, blk, rp', rpi', cur')"
  shows "loop_inv cart c0 SZ rp0 rpi0 nz (ac \<union> nc) rp' rpi' cur'
           (blocks @ [map (resolve_block rpi') blk]) (raw @ [blk])
         \<and> nz = filter (\<lambda>q. \<not> placeable ac q) sz \<and> blk = filter (placeable ac) sz"
proof -
  let ?P = "filter (placeable ac) sz"
  note R = block_scan_result[OF sc]
  have nz: "nz = filter (\<lambda>q. \<not> placeable ac q) sz" and blk: "blk = ?P"
    and nc: "nc = fst ` set ?P" and cur': "cur' = cur + length ?P"
    and len: "length rp' = length rp" "length rpi' = length rpi"
    using R by simp_all
  have Rb: "?P \<noteq> [] \<Longrightarrow> cur' \<le> length rp" using R by blast
  have Ra: "\<And>q a. q \<in> set ?P \<Longrightarrow> a \<in> quad_atoms q \<Longrightarrow> a < length rpi" using R by blast
  have Rrp: "\<And>p. p < cur \<or> cur' \<le> p \<Longrightarrow> rp' ! p = rp ! p" using R by blast
  have Rrp2: "\<And>j. j < length ?P \<Longrightarrow> rp' ! (cur + j) = fst (?P ! j)" using R by blast
  have Rrpi: "\<And>b. b \<notin> fst ` set ?P \<Longrightarrow> rpi' ! b = rpi ! b" using R by blast
  note D = loop_invD[OF inv]
  note I = D(1-6)
  have Ia: "\<And>a. a \<in> ac \<Longrightarrow> a < length rpi" using D(7) by blast
  have Irpi: "\<And>a. a \<notin> fst ` set (concat raw) \<Longrightarrow> rpi ! a = rpi0 ! a"
    using D(8) by blast
  have Irp: "\<And>p. p < c0 \<or> cur \<le> p \<Longrightarrow> rp ! p = rp0 ! p"
    using D(9) by blast
  have Ipos: "\<And>j. j < length (concat raw) \<Longrightarrow>
      rpi ! fst (concat raw ! j) = c0 + j \<and> rp ! (c0 + j) = fst (concat raw ! j)"
    using D(10) by blast
  have Ib: "concat raw \<noteq> [] \<Longrightarrow> cur \<le> length rp" using D(11) by blast
  have Iref: "\<And>k q. k < length raw \<Longrightarrow> q \<in> set (raw ! k) \<Longrightarrow>
      quad_refs q \<subseteq> set cart \<union> fst ` set (concat (take k raw))"
    using D(12) by blast
  have "mset (map fst (concat raw @ sz)) = mset (map fst SZ)"
    using I(4) by (metis mset_append mset_map)
  then have dk: "distinct (map fst (concat raw @ sz))"
    using dS by (metis mset_eq_imp_distinct_iff)
  have sub: "set (concat raw @ sz) = set SZ" using I(4) by (metis mset_append set_mset_mset)
  have dsz: "distinct (map fst sz)" using dk by simp
  have disj: "fst ` set sz \<inter> ac = {}"
  proof -
    have "fst ` set sz \<inter> fst ` set (concat raw) = {}" using dk by auto
    moreover have "fst ` set sz \<inter> set cart = {}" using sub dj by auto
    ultimately show ?thesis unfolding I(2) by blast
  qed
  have Pk: "fst ` set ?P \<inter> ac = {}" using disj by auto
  have Rrpi2: "\<And>j. j < length ?P \<Longrightarrow> rpi' ! fst (?P ! j) = cur + j" using R dsz by blast
  have oldrefs: "quad_refs q \<subseteq> ac" if "q \<in> set (concat raw)" for q
  proof -
    from that obtain b where b: "b \<in> set raw" "q \<in> set b" by auto
    from b(1) obtain k where "k < length raw" "raw ! k = b" by (auto simp: in_set_conv_nth)
    with b(2) have k: "k < length raw" "q \<in> set (raw ! k)" by simp_all
    have "set (concat (take k raw)) \<subseteq> set (concat raw)"
      by (auto dest: in_set_takeD)
    with Iref[OF k] show ?thesis unfolding I(2) by blast
  qed
  have 1: "blocks @ [map (resolve_block rpi') blk] = map (map (resolve_block rpi')) (raw @ [blk])"
  proof -
    have "map (resolve_block rpi') b = map (resolve_block rpi) b" if "b \<in> set raw" for b
    proof (rule map_cong[OF refl])
      fix q assume "q \<in> set b"
      with that have "q \<in> set (concat raw)" by auto
      from oldrefs[OF this] Pk have "\<forall>r\<in>quad_refs q. r \<notin> fst ` set ?P" by blast
      with Rrpi have "\<forall>r\<in>quad_refs q. rpi' ! r = rpi ! r" by blast
      then show "resolve_block rpi' q = resolve_block rpi q" by (rule resolve_block_cong)
    qed
    then show ?thesis unfolding I(1) by simp
  qed
  have 2: "ac \<union> nc = set cart \<union> fst ` set (concat (raw @ [blk]))"
    unfolding I(2) nc blk by auto
  have 3: "cur' = c0 + length (concat (raw @ [blk]))"
    unfolding cur' I(3) blk by simp
  have 4: "mset (concat (raw @ [blk])) + mset nz = mset SZ"
  proof -
    have "mset ?P + mset (filter (\<lambda>q. \<not> placeable ac q) sz) = mset sz" by simp
    then show ?thesis unfolding nz blk using I(4) by (simp add: ac_simps)
  qed
  have 5: "length rp' = length rp0" "length rpi' = length rpi0" using len I by simp_all
  have 6: "\<forall>a\<in>ac \<union> nc. a < length rpi'"
  proof
    fix a assume "a \<in> ac \<union> nc"
    then consider "a \<in> ac" | "a \<in> fst ` set ?P" unfolding nc by blast
    then show "a < length rpi'"
    proof cases
      case 1 then show ?thesis using Ia len by simp
    next
      case 2
      then obtain q where "q \<in> set ?P" "a = fst q" by auto
      moreover have "fst q \<in> quad_atoms q" by (cases q) (simp add: quad_atoms_def)
      ultimately show ?thesis using Ra len by simp
    qed
  qed
  have 7: "\<forall>a. a \<notin> fst ` set (concat (raw @ [blk])) \<longrightarrow> rpi' ! a = rpi0 ! a"
  proof (intro allI impI)
    fix a assume "a \<notin> fst ` set (concat (raw @ [blk]))"
    then have "a \<notin> fst ` set ?P" "a \<notin> fst ` set (concat raw)" unfolding blk by auto
    then show "rpi' ! a = rpi0 ! a" using Rrpi Irpi by simp
  qed
  have cc: "cur \<le> cur'" unfolding cur' by simp
  have 8: "\<forall>p. p < c0 \<or> cur' \<le> p \<longrightarrow> rp' ! p = rp0 ! p"
  proof (intro allI impI)
    fix p assume p: "p < c0 \<or> cur' \<le> p"
    have "c0 \<le> cur" unfolding I(3) by simp
    with p cc have "p < cur \<or> cur' \<le> p" "p < c0 \<or> cur \<le> p" by auto
    then show "rp' ! p = rp0 ! p" using Rrp Irp by simp
  qed
  have 9: "\<forall>j<length (concat (raw @ [blk])).
             rpi' ! fst (concat (raw @ [blk]) ! j) = c0 + j
             \<and> rp' ! (c0 + j) = fst (concat (raw @ [blk]) ! j)"
  proof (intro allI impI)
    fix j assume j: "j < length (concat (raw @ [blk]))"
    have cat: "concat (raw @ [blk]) = concat raw @ ?P" unfolding blk by simp
    show "rpi' ! fst (concat (raw @ [blk]) ! j) = c0 + j
             \<and> rp' ! (c0 + j) = fst (concat (raw @ [blk]) ! j)"
    proof (cases "j < length (concat raw)")
      case True
      then have e: "concat (raw @ [blk]) ! j = concat raw ! j" unfolding cat by (simp add: nth_append)
      have "concat raw ! j \<in> set (concat raw)" using True by (rule nth_mem)
      then have "fst (concat raw ! j) \<in> ac" unfolding I(2) by blast
      with Pk have "fst (concat raw ! j) \<notin> fst ` set ?P" by blast
      then have a: "rpi' ! fst (concat raw ! j) = rpi ! fst (concat raw ! j)" by (rule Rrpi)
      have "c0 + j < cur" unfolding I(3) using True by simp
      then have b: "rp' ! (c0 + j) = rp ! (c0 + j)" using Rrp by simp
      show ?thesis unfolding e a b using Ipos[OF True] .
    next
      case False
      define j' where "j' = j - length (concat raw)"
      have j': "j' < length ?P" "j = length (concat raw) + j'"
        using j False unfolding cat j'_def by auto
      have e: "concat (raw @ [blk]) ! j = ?P ! j'" unfolding cat j'(2) by simp
      have c: "c0 + j = cur + j'" unfolding I(3) j'(2) by simp
      show ?thesis unfolding e c using Rrpi2[OF j'(1)] Rrp2[OF j'(1)] by simp
    qed
  qed
  have 10: "concat (raw @ [blk]) \<noteq> [] \<longrightarrow> cur' \<le> length rp'"
  proof
    assume ne: "concat (raw @ [blk]) \<noteq> []"
    show "cur' \<le> length rp'"
    proof (cases "?P = []")
      case True
      then have "concat raw \<noteq> []" using ne unfolding blk by simp
      from Ib[OF this] True show ?thesis unfolding cur' len by simp
    next
      case False
      from Rb[OF this] show ?thesis unfolding len .
    qed
  qed
  have 11: "\<forall>k<length (raw @ [blk]). \<forall>q\<in>set ((raw @ [blk]) ! k).
             quad_refs q \<subseteq> set cart \<union> fst ` set (concat (take k (raw @ [blk])))"
  proof (intro allI impI ballI)
    fix k q assume k: "k < length (raw @ [blk])" and q: "q \<in> set ((raw @ [blk]) ! k)"
    show "quad_refs q \<subseteq> set cart \<union> fst ` set (concat (take k (raw @ [blk])))"
    proof (cases "k < length raw")
      case True
      then have "q \<in> set (raw ! k)" using q by (simp add: nth_append)
      from Iref[OF True this] True show ?thesis by simp
    next
      case False
      then have kk: "k = length raw" using k by simp
      then have "q \<in> set ?P" using q unfolding blk by simp
      then have "quad_refs q \<subseteq> ac" by (simp add: placeable_refs)
      then show ?thesis unfolding kk I(2) by simp
    qed
  qed
  have 12: "nz = filter (\<lambda>q. fst q \<notin> ac \<union> nc) SZ"
  proof -
    have "filter (\<lambda>q. \<not> placeable ac q) sz = filter (\<lambda>q. fst q \<notin> nc) sz"
    proof (rule filter_cong[OF refl])
      fix q assume q: "q \<in> set sz"
      show "(\<not> placeable ac q) = (fst q \<notin> nc)"
      proof
        assume np: "\<not> placeable ac q"
        show "fst q \<notin> nc"
        proof
          assume "fst q \<in> nc"
          then obtain q' where q': "q' \<in> set sz" "placeable ac q'" "fst q' = fst q"
            unfolding nc by auto
          with q dsz have "q' = q" by (metis eq_key_imp_eq_value prod.collapse)
          with q'(2) np show False by simp
        qed
      next
        assume "fst q \<notin> nc"
        then show "\<not> placeable ac q" using q unfolding nc by force
      qed
    qed
    then have "nz = filter (\<lambda>q. fst q \<notin> nc) (filter (\<lambda>q. fst q \<notin> ac) SZ)"
      unfolding nz using D(13) by simp
    also have "\<dots> = filter (\<lambda>q. fst q \<notin> ac \<union> nc) SZ"
      by (simp add: conj_commute)
    finally show ?thesis .
  qed
  have "loop_inv cart c0 SZ rp0 rpi0 nz (ac \<union> nc) rp' rpi' cur'
           (blocks @ [map (resolve_block rpi') blk]) (raw @ [blk])"
    unfolding loop_inv_def
    by (intro conjI) (fact 1 2 3 4 5 6 7 8 9 10 11 12)+
  then show ?thesis using nz blk by simp
qed

lemma block_scan_error: "block_scan ac items st = Inl e \<Longrightarrow> e = IndexError"
proof (induction items arbitrary: st)
  case Nil
  then show ?case by simp
next
  case (Cons q items)
  obtain nz nc blk rp rpi cur where st: "st = (nz, nc, blk, rp, rpi, cur)" by (cases st)
  show ?case
  proof (cases "placeable ac q")
    case True
    show ?thesis using Cons.prems Cons.IH unfolding st block_scan_place[OF True]
      by (auto split: if_splits)
  next
    case False
    show ?thesis using Cons.prems Cons.IH unfolding st block_scan_skip[OF False] by blast
  qed
qed

lemma block_loop_inv:
  assumes "block_loop sz ac rp rpi cur blocks = Some y"
    and "loop_inv cart c0 SZ rp0 rpi0 sz ac rp rpi cur blocks raw"
    and "distinct (map fst SZ)" and "fst ` set SZ \<inter> set cart = {}"
  shows "case y of Inl e \<Rightarrow> e = IndexError
         | Inr (blocks', rp', rpi') \<Rightarrow>
             \<exists>ac' cur' raw'. loop_inv cart c0 SZ rp0 rpi0 [] ac' rp' rpi' cur' blocks' raw'"
proof -
  define post where "post y = (case y of Inl e \<Rightarrow> e = IndexError
         | Inr (blocks', rp', rpi') \<Rightarrow>
             \<exists>ac' cur' raw'. loop_inv cart c0 SZ rp0 rpi0 [] ac' rp' rpi' cur' blocks' raw')"
    for y :: "error + quad list list \<times> nat list \<times> nat list"
  have "\<forall>raw. loop_inv cart c0 SZ rp0 rpi0 sz ac rp rpi cur blocks raw \<longrightarrow> post y"
  proof (rule block_loop.raw_induct[where P = "\<lambda>sz ac rp rpi cur blocks y.
      \<forall>raw. loop_inv cart c0 SZ rp0 rpi0 sz ac rp rpi cur blocks raw \<longrightarrow> post y",
      OF _ assms(1)], goal_cases)
    case (1 f sz ac rp rpi cur blocks y)
    show ?case
    proof (intro allI impI)
      fix raw assume inv: "loop_inv cart c0 SZ rp0 rpi0 sz ac rp rpi cur blocks raw"
      show "post y"
      proof (cases "sz = []")
        case True
        then have y: "y = Inr (blocks, rp, rpi)" using 1(2) by simp
        have "\<exists>ac' cur' raw'. loop_inv cart c0 SZ rp0 rpi0 [] ac' rp rpi cur' blocks raw'"
          using inv unfolding True by (intro exI)
        then show ?thesis unfolding y post_def by simp
      next
        case False
        show ?thesis
        proof (cases "block_scan ac sz ([], {}, [], rp, rpi, cur)")
          case (Inl e)
          then have "y = Inl e" using 1(2) False by simp
          then show ?thesis using block_scan_error[OF Inl] unfolding post_def by simp
        next
          case (Inr r)
          obtain nz nc blk rp' rpi' cur' where r: "r = (nz, nc, blk, rp', rpi', cur')"
            by (cases r)
          have sc: "block_scan ac sz ([], {}, [], rp, rpi, cur) = Inr (nz, nc, blk, rp', rpi', cur')"
            using Inr r by simp
          have rec: "f nz (ac \<union> nc) rp' rpi' cur'
                (blocks @ [map (resolve_block rpi') blk]) = Some y"
            using 1(2) False sc by simp
          from loop_inv_step[OF inv assms(3,4) sc]
          have n: "loop_inv cart c0 SZ rp0 rpi0 nz (ac \<union> nc) rp' rpi' cur'
                (blocks @ [map (resolve_block rpi') blk]) (raw @ [blk])" by (rule conjunct1)
          from 1(1)[OF rec] have "loop_inv cart c0 SZ rp0 rpi0 nz (ac \<union> nc) rp' rpi' cur'
                (blocks @ [map (resolve_block rpi') blk]) (raw @ [blk]) \<longrightarrow> post y"
            by (rule spec)
          then show ?thesis using n by (rule mp)
        qed
      qed
    qed
  qed
  with assms(2) have "post y" by blast
  then show ?thesis unfolding post_def .
qed

lemma fill_anchors_props:
  assumes "fill_anchors i cart rp rpi = Inr (rp', rpi')"
  shows "length rp' = length rp \<and> length rpi' = length rpi
       \<and> (\<forall>c\<in>set cart. c < length rpi \<and> i \<le> rpi' ! c \<and> rpi' ! c < i + length cart)
       \<and> (\<forall>k<length cart. rp' ! (i + k) = cart ! k)
       \<and> (\<forall>p. p < i \<or> i + length cart \<le> p \<longrightarrow> rp' ! p = rp ! p)
       \<and> (\<forall>a. a \<notin> set cart \<longrightarrow> rpi' ! a = rpi ! a)
       \<and> (cart \<noteq> [] \<longrightarrow> i + length cart \<le> length rp)
       \<and> (distinct cart \<longrightarrow> (\<forall>k<length cart. rpi' ! (cart ! k) = i + k))"
  using assms
proof (induction cart arbitrary: i rp rpi)
  case Nil
  then show ?case by simp
next
  case (Cons j js)
  from Cons.prems have ok: "i < length rp" "j < length rpi"
    and r: "fill_anchors (i + 1) js (rp[i := j]) (rpi[j := i]) = Inr (rp', rpi')"
    by (auto split: if_splits)
  note IH = Cons.IH[OF r]
  have 1: "length rp' = length rp \<and> length rpi' = length rpi" using IH by simp
  have IHc: "\<And>c. c \<in> set js \<Longrightarrow> c < length rpi \<and> i + 1 \<le> rpi' ! c \<and> rpi' ! c < i + 1 + length js"
    using IH by simp
  have IHa: "\<And>a. a \<notin> set js \<Longrightarrow> rpi' ! a = rpi[j := i] ! a" using IH by blast
  have IHp: "\<And>p. p < i + 1 \<or> i + 1 + length js \<le> p \<Longrightarrow> rp' ! p = rp[i := j] ! p" using IH by blast
  have IHk: "\<And>k. k < length js \<Longrightarrow> rp' ! (i + 1 + k) = js ! k" using IH by blast
  have 2: "\<forall>c\<in>set (j # js). c < length rpi \<and> i \<le> rpi' ! c \<and> rpi' ! c < i + length (j # js)"
  proof
    fix c assume c: "c \<in> set (j # js)"
    show "c < length rpi \<and> i \<le> rpi' ! c \<and> rpi' ! c < i + length (j # js)"
    proof (cases "c \<in> set js")
      case True
      from IHc[OF this] show ?thesis by simp
    next
      case False
      then have "c = j" using c by simp
      with IHa[OF False] ok show ?thesis by simp
    qed
  qed
  have 3: "\<forall>k<length (j # js). rp' ! (i + k) = (j # js) ! k"
  proof (intro allI impI)
    fix k assume k: "k < length (j # js)"
    show "rp' ! (i + k) = (j # js) ! k"
    proof (cases k)
      case 0
      then show ?thesis using IHp[of i] ok by simp
    next
      case (Suc k')
      then show ?thesis using IHk[of k'] k by simp
    qed
  qed
  have 4: "\<forall>p. p < i \<or> i + length (j # js) \<le> p \<longrightarrow> rp' ! p = rp ! p"
  proof (intro allI impI)
    fix p assume p: "p < i \<or> i + length (j # js) \<le> p"
    then have "p < i + 1 \<or> i + 1 + length js \<le> p" "p \<noteq> i" by auto
    with IHp[of p] show "rp' ! p = rp ! p" by simp
  qed
  have 5: "\<forall>a. a \<notin> set (j # js) \<longrightarrow> rpi' ! a = rpi ! a"
    using IHa by simp
  have 6: "(j # js) \<noteq> [] \<longrightarrow> i + length (j # js) \<le> length rp"
  proof (cases "js = []")
    case True then show ?thesis using ok by simp
  next
    case False then show ?thesis using IH by simp
  qed
  have 7: "distinct (j # js) \<longrightarrow> (\<forall>k<length (j # js). rpi' ! ((j # js) ! k) = i + k)"
  proof (intro allI impI)
    fix k assume d: "distinct (j # js)" and k: "k < length (j # js)"
    show "rpi' ! ((j # js) ! k) = i + k"
    proof (cases k)
      case 0
      have "j \<notin> set js" using d by simp
      from IHa[OF this] ok 0 show ?thesis by simp
    next
      case (Suc k')
      have "distinct js" using d by simp
      with IH have "\<forall>k<length js. rpi' ! (js ! k) = i + 1 + k" by blast
      then show ?thesis using Suc k by simp
    qed
  qed
  show ?case using 1 2 3 4 5 6 7 by blast
qed

lemma fill_inverse_props:
  assumes "fill_inverse i js buf = Inr buf'"
  shows "length buf' = length buf \<and> (\<forall>j\<in>set js. j < length buf)
       \<and> (\<forall>a. a \<notin> set js \<longrightarrow> buf' ! a = buf ! a)
       \<and> (distinct js \<longrightarrow> (\<forall>k<length js. buf' ! (js ! k) = i + k))"
  using assms
proof (induction js arbitrary: i buf)
  case Nil
  then show ?case by simp
next
  case (Cons j js)
  from Cons.prems have ok: "j < length buf"
    and r: "fill_inverse (i + 1) js (buf[j := i]) = Inr buf'"
    by (auto split: if_splits)
  note IH = Cons.IH[OF r]
  have IHa: "\<And>a. a \<notin> set js \<Longrightarrow> buf' ! a = buf[j := i] ! a" using IH by blast
  have 1: "length buf' = length buf" using IH by simp
  have 2: "\<forall>j\<in>set (j # js). j < length buf" using IH ok by simp
  have 3: "\<forall>a. a \<notin> set (j # js) \<longrightarrow> buf' ! a = buf ! a" using IHa by simp
  have 4: "distinct (j # js) \<longrightarrow> (\<forall>k<length (j # js). buf' ! ((j # js) ! k) = i + k)"
  proof (intro allI impI)
    fix k assume d: "distinct (j # js)" and k: "k < length (j # js)"
    show "buf' ! ((j # js) ! k) = i + k"
    proof (cases k)
      case 0
      have "j \<notin> set js" using d by simp
      from IHa[OF this] ok 0 show ?thesis by simp
    next
      case (Suc k')
      have "distinct js" using d by simp
      with IH have "\<forall>k<length js. buf' ! (js ! k) = i + 1 + k" by blast
      then show ?thesis using Suc k by simp
    qed
  qed
  show ?case using 1 2 3 4 by blast
qed

text \<open>The row \<^verbatim>\<open>[item[0], item[1][0], item[1][1], item[1][2]]\<close> of an item.\<close>

definition quad_of :: "nat \<times> nat list \<Rightarrow> quad" where
  "quad_of item = (fst item, snd item ! 0, snd item ! 1, snd item ! 2)"

lemma to_quads_props:
  assumes "to_quads items = Inr qs"
  shows "qs = map quad_of items \<and> (\<forall>item\<in>set items. 3 \<le> length (snd item))"
  using assms
  by (induction items arbitrary: qs rule: to_quads.induct)
     (auto simp: quad_of_def split: sum.splits)

lemma to_quads_error: "to_quads items = Inl e \<Longrightarrow> e = IndexError"
  by (induction items arbitrary: e rule: to_quads.induct) (auto split: sum.splits)

lemma to_quads_ok: "\<forall>item\<in>set items. 3 \<le> length (snd item) \<Longrightarrow> \<exists>qs. to_quads items = Inr qs"
proof (induction items)
  case Nil
  then show ?case by simp
next
  case (Cons item items)
  obtain a rs where i: "item = (a, rs)" by (cases item)
  from Cons.prems i have "3 \<le> length rs" by simp
  then obtain r1 r2 r3 rs' where rs: "rs = r1 # r2 # r3 # rs'"
    by (cases rs; cases "tl rs"; cases "tl (tl rs)") auto
  from Cons obtain qs where "to_quads items = Inr qs" by auto
  then show ?case unfolding i rs by simp
qed

lemma sort_z_indices_props:
  assumes "sort_z_indices z = Inr sz"
  shows "distinct (map fst sz)" and "fst ` set sz = fst ` set z"
    and "\<exists>s. topological_sort z = Inr s \<and> sz = map quad_of s"
proof -
  from assms obtain s where s: "topological_sort z = Inr s" "to_quads s = Inr sz"
    unfolding sort_z_indices_def by (auto split: sum.splits)
  have q: "sz = map quad_of s" using to_quads_props[OF s(2)] by simp
  have f: "map fst sz = map fst s" unfolding q by (simp add: quad_of_def comp_def)
  show "distinct (map fst sz)" unfolding f by (rule topological_sort_Inr(2)[OF s(1)])
  have "fst ` set sz = fst ` set s" using f by (metis set_map)
  then show "fst ` set sz = fst ` set z"
    using topological_sort_Inr(1)[OF s(1)] keys_dict_of[of z] by simp
  show "\<exists>s. topological_sort z = Inr s \<and> sz = map quad_of s" using s(1) q by blast
qed

lemma setup_indicesD:
  assumes "setup_indices dims z cart = Some (Inr ix)"
  shows "\<exists>sz ats rp0 rpi0 c0 res.
    sort_z_indices z = Inr sz
    \<and> (\<forall>a\<in>set (map fst sz). a < dims div 3)
    \<and> fill_inverse 0 (map fst sz) (replicate (dims div 3) 0) = Inr ats
    \<and> (\<forall>c\<in>set cart. c < dims div 3)
    \<and> fill_anchors 0 cart (replicate (dims div 3) 0) (replicate (dims div 3) 0) = Inr (rp0, rpi0)
    \<and> first_cart_ind (dims div 3) (map fst sz) cart = Inr c0
    \<and> block_loop sz (set cart) rp0 rpi0 c0 [] = Some (Inr res)
    \<and> ix = make_indices (dims div 3) sz cart ats res"
  using assms unfolding setup_indices_def Let_def
  by (auto split: sum.splits option.splits if_splits prod.splits simp: not_le)

lemma loop_inv_init:
  assumes "distinct (map fst SZ)" "fst ` set SZ \<inter> set cart = {}" "\<forall>c\<in>set cart. c < length rpi0"
  shows "loop_inv cart c0 SZ rp0 rpi0 SZ (set cart) rp0 rpi0 c0 [] []"
proof -
  have "SZ = filter (\<lambda>q. fst q \<notin> set cart) SZ"
    using assms(2) by (auto intro!: filter_True[symmetric])
  then show ?thesis unfolding loop_inv_def using assms(3) by simp
qed

text \<open>What the index setup guarantees when it returns, for z-matrix atoms disjoint from the anchors.\<close>

lemma setup_indices_inv:
  assumes "setup_indices dims z cart = Some (Inr ix)" and "fst ` set z \<inter> set cart = {}"
  shows "\<exists>rp0 rpi0 c0 ac cur raw.
      fill_anchors 0 cart (replicate (dims div 3) 0) (replicate (dims div 3) 0) = Inr (rp0, rpi0)
      \<and> first_cart_ind (dims div 3) (map fst (sorted_z_indices ix)) cart = Inr c0
      \<and> loop_inv cart c0 (sorted_z_indices ix) rp0 rpi0 [] ac (rev_perm ix) (rev_perm_inv ix) cur
            (rev_blocks ix) raw"
proof -
  from setup_indicesD[OF assms(1)] obtain sz ats rp0 rpi0 c0 res where
    s: "sort_z_indices z = Inr sz"
    and c: "\<forall>c\<in>set cart. c < dims div 3"
    and fa: "fill_anchors 0 cart (replicate (dims div 3) 0) (replicate (dims div 3) 0) = Inr (rp0, rpi0)"
    and fc: "first_cart_ind (dims div 3) (map fst sz) cart = Inr c0"
    and bl: "block_loop sz (set cart) rp0 rpi0 c0 [] = Some (Inr res)"
    and ix: "ix = make_indices (dims div 3) sz cart ats res"
    by blast
  obtain blocks rp rpi where res: "res = (blocks, rp, rpi)" by (cases res)
  have f: "sorted_z_indices ix = sz" "rev_perm ix = rp" "rev_perm_inv ix = rpi" "rev_blocks ix = blocks"
    unfolding ix res make_indices_def by simp_all
  have d: "distinct (map fst sz)" and k: "fst ` set sz \<inter> set cart = {}"
    using sort_z_indices_props[OF s] assms(2) by simp_all
  have "length rpi0 = dims div 3" using fill_anchors_props[OF fa] by simp
  with c have "\<forall>c\<in>set cart. c < length rpi0" by simp
  from loop_inv_init[OF d k this]
  have "loop_inv cart c0 sz rp0 rpi0 sz (set cart) rp0 rpi0 c0 [] []" .
  from block_loop_inv[OF bl this d k] obtain ac cur raw where
    "loop_inv cart c0 sz rp0 rpi0 [] ac rp rpi cur blocks raw"
    unfolding res by auto
  then show ?thesis using fa fc unfolding f by blast
qed

lemma no_refs_no_blocks:
  assumes "\<forall>k<length raw. \<forall>q\<in>set (raw ! k). quad_refs q \<subseteq> fst ` set (concat (take k raw))"
  shows "concat raw = []"
  using assms
proof (induction raw rule: rev_induct)
  case Nil
  then show ?case by simp
next
  case (snoc b raw)
  have "\<forall>k<length raw. \<forall>q\<in>set (raw ! k). quad_refs q \<subseteq> fst ` set (concat (take k raw))"
  proof (intro allI impI)
    fix k assume k: "k < length raw"
    then have "k < length (raw @ [b])" by simp
    with snoc.prems have "\<forall>q\<in>set ((raw @ [b]) ! k). quad_refs q \<subseteq> fst ` set (concat (take k (raw @ [b])))"
      by blast
    then show "\<forall>q\<in>set (raw ! k). quad_refs q \<subseteq> fst ` set (concat (take k raw))"
      using k by (simp add: nth_append)
  qed
  from snoc.IH[OF this] have e: "concat raw = []" .
  have "length raw < length (raw @ [b])" by simp
  with snoc.prems
  have "\<forall>q\<in>set ((raw @ [b]) ! length raw). quad_refs q \<subseteq> fst ` set (concat (take (length raw) (raw @ [b])))"
    by blast
  then have "\<forall>q\<in>set b. quad_refs q \<subseteq> {}" using e by simp
  moreover have "quad_refs q \<noteq> {}" for q by (cases q) (simp add: quad_refs_def)
  ultimately have "b = []" by (cases b) auto
  then show ?case using e by simp
qed

lemma quad_refs_resolve:
  "quad_refs (resolve_block rpi q) = (\<lambda>r. rpi ! r) ` quad_refs q"
  by (cases q) (auto simp: quad_refs_def)

lemma block_positions:
  assumes "setup_indices dims z cart = Some (Inr ix)" and "fst ` set z \<inter> set cart = {}"
    and "k < length (rev_blocks ix)" and "q \<in> set (rev_blocks ix ! k)" and "p \<in> quad_refs q"
  shows "p < length cart + length (concat (take k (rev_blocks ix)))"
proof -
  from setup_indices_inv[OF assms(1,2)] obtain rp0 rpi0 c0 ac cur raw where
    fa: "fill_anchors 0 cart (replicate (dims div 3) 0) (replicate (dims div 3) 0) = Inr (rp0, rpi0)"
    and fc: "first_cart_ind (dims div 3) (map fst (sorted_z_indices ix)) cart = Inr c0"
    and inv: "loop_inv cart c0 (sorted_z_indices ix) rp0 rpi0 [] ac (rev_perm ix) (rev_perm_inv ix) cur
            (rev_blocks ix) raw"
    by blast
  note D = loop_invD[OF inv]
  let ?rpi = "rev_perm_inv ix"
  have lk: "k < length raw" using assms(3) unfolding D(1) by simp
  have bk: "rev_blocks ix ! k = map (resolve_block ?rpi) (raw ! k)"
    using lk by (subst D(1)) simp
  have lens: "length (concat (take k (rev_blocks ix))) = length (concat (take k raw))"
    by (subst D(1)) (simp add: take_map length_concat comp_def)
  from assms(4) obtain q0 where q0: "q0 \<in> set (raw ! k)" "q = resolve_block ?rpi q0"
    unfolding bk by auto
  from assms(5) obtain r where r: "r \<in> quad_refs q0" "p = ?rpi ! r"
    unfolding q0(2) quad_refs_resolve by auto
  have rr: "r \<in> set cart \<union> fst ` set (concat (take k raw))" using D(12) lk q0(1) r(1) by blast
  show ?thesis
  proof (cases "cart = []")
    case True
    have "\<forall>k<length raw. \<forall>q\<in>set (raw ! k). quad_refs q \<subseteq> fst ` set (concat (take k raw))"
      using D(12) True by simp
    from no_refs_no_blocks[OF this] have "concat raw = []" .
    then have "raw ! k = []" using lk by (metis concat_eq_Nil_conv nth_mem)
    with q0(1) show ?thesis by simp
  next
    case False
    then have c0: "c0 = length cart" using fc by (simp add: first_cart_ind_def)
    show ?thesis
    proof (cases "r \<in> fst ` set (concat (take k raw))")
      case True
      then obtain e where e: "r = fst e" "e \<in> set (concat (take k raw))" by (rule imageE)
      from e(2) obtain j where "j < length (concat (take k raw))" "concat (take k raw) ! j = e"
        unfolding in_set_conv_nth by blast
      with e(1) have j: "j < length (concat (take k raw))" "fst (concat (take k raw) ! j) = r"
        by simp_all
      have pre: "concat raw = concat (take k raw) @ concat (drop k raw)"
        by (metis append_take_drop_id concat_append)
      have j2: "j < length (concat raw)" "concat raw ! j = concat (take k raw) ! j"
        using j(1) unfolding pre by (simp_all add: nth_append)
      from D(10) j2 have "?rpi ! fst (concat raw ! j) = c0 + j" by blast
      then have "p = c0 + j" using r(2) j(2) j2(2) by simp
      then show ?thesis using j(1) unfolding c0 lens by simp
    next
      case F: False
      with rr have rc: "r \<in> set cart" by blast
      have "r \<notin> fst ` set (concat raw)"
      proof
        assume "r \<in> fst ` set (concat raw)"
        moreover have "set (concat raw) = set (sorted_z_indices ix)"
          using D(4) by (metis add.right_neutral mset.simps(1) set_mset_mset)
        moreover have "fst ` set (sorted_z_indices ix) \<inter> set cart = {}"
        proof -
          from setup_indicesD[OF assms(1)] obtain sz ats res where
            "sort_z_indices z = Inr sz" "ix = make_indices (dims div 3) sz cart ats res" by blast
          then show ?thesis using sort_z_indices_props(2)[of z sz] assms(2)
            by (cases res) (simp add: make_indices_def)
        qed
        ultimately show False using rc by blast
      qed
      with D(8) have "?rpi ! r = rpi0 ! r" by blast
      moreover have "rpi0 ! r < 0 + length cart" using fill_anchors_props[OF fa] rc by blast
      ultimately show ?thesis using r(2) by simp
    qed
  qed
qed

lemmas setup_eval_defs = setup_indices_def sort_z_indices_def topological_sort_def dict_of_def
  topological_loop.simps block_loop.simps Let_def first_cart_ind_def flat3_def make_indices_def
  make_inds_for_atom_def make_modified_indices_def

text \<open>
  C4: when the index setup returns, for z-matrix atoms disjoint from the anchors (the
  data model: every non-anchor atom is a key of the z-matrix, the anchors stay
  Cartesian), every reference index \<open>p\<close> stored in block \<open>k\<close> is a position of the
  Cartesian buffer below the number of anchors plus the sizes of the blocks before
  \<open>k\<close>: it is the position of an anchor or of an atom placed in a strictly earlier
  block, never of an atom of block \<open>k\<close> or of a later one.
\<close>

theorem block_partition_valid:
  assumes "setup_indices dims z_indices cart_indices = Some (Inr ix)"
    and "fst ` set z_indices \<inter> set cart_indices = {}"
    and "k < length (rev_blocks ix)" and "q \<in> set (rev_blocks ix ! k)" and "p \<in> quad_refs q"
  shows "p < length cart_indices + length (concat (take k (rev_blocks ix)))"
  using assms by (rule block_positions)

theorem block_partition_valid_witness:
  "\<exists>ix. setup_indices 18 [(3, [2, 1, 0]), (4, [5, 3, 2]), (5, [3, 1, 0])] [0, 1, 2] = Some (Inr ix)
      \<and> fst ` set [(3::nat, [2::nat, 1, 0]), (4, [5, 3, 2]), (5, [3, 1, 0])] \<inter> set [0, 1, 2] = {}
      \<and> 2 < length (rev_blocks ix) \<and> (4, 4, 3, 2) \<in> set (rev_blocks ix ! 2)
      \<and> 4 \<in> quad_refs (4, 4, 3, 2)
      \<and> 4 < length [0::nat, 1, 2] + length (concat (take 2 (rev_blocks ix)))"
proof -
  have "\<exists>ix. setup_indices 18 [(3, [2, 1, 0]), (4, [5, 3, 2]), (5, [3, 1, 0])] [0, 1, 2] = Some (Inr ix)
      \<and> rev_blocks ix = [[(3, 2, 1, 0)], [(5, 3, 1, 0)], [(4, 4, 3, 2)]]"
    by (simp add: setup_eval_defs)
  then obtain ix where
    h1: "setup_indices 18 [(3, [2, 1, 0]), (4, [5, 3, 2]), (5, [3, 1, 0])] [0, 1, 2] = Some (Inr ix)"
    and b: "rev_blocks ix = [[(3, 2, 1, 0)], [(5, 3, 1, 0)], [(4, 4, 3, 2)]]" by blast
  have h2: "fst ` set [(3::nat, [2::nat, 1, 0]), (4, [5, 3, 2]), (5, [3, 1, 0])] \<inter> set [0, 1, 2] = {}"
    by simp
  have h3: "2 < length (rev_blocks ix)" and h4: "(4, 4, 3, 2) \<in> set (rev_blocks ix ! 2)"
    unfolding b by simp_all
  have h5: "4 \<in> quad_refs (4, 4, 3, 2)" by (simp add: quad_refs_def)
  from block_partition_valid[OF h1 h2 h3 h4 h5] h1 h2 h3 h4 h5 show ?thesis by blast
qed

section \<open>The internal-coordinate transform\<close>

text \<open>
  Every tensor operation of \<^verbatim>\<open>forward\<close> and \<^verbatim>\<open>inverse\<close> acts on each batch row on
  its own (the batch dimension is never reduced or mixed), so the two maps are written
  for one row, a list of reals, and a batch is a list of rows. Only the statistics of
  the constructor reduce over the batch.

  Indexing a row with a list of columns, \<^verbatim>\<open>x[:, idx]\<close>; assigning to these columns,
  \<^verbatim>\<open>x[:, idx] = vals\<close>; and the in-place \<^verbatim>\<open>x[:, idx] -= m\<close> and
  \<^verbatim>\<open>x[:, idx] /= s\<close>, which read the columns, compute, and assign.
\<close>

definition gather :: "real list \<Rightarrow> nat list \<Rightarrow> real list" where
  "gather x idx = map (\<lambda>i. x ! i) idx"

definition scatter :: "real list \<Rightarrow> nat list \<Rightarrow> real list \<Rightarrow> real list" where
  "scatter x idx vals = fold (\<lambda>iv y. y[fst iv := snd iv]) (zip idx vals) x"

definition sub_at :: "real list \<Rightarrow> nat list \<Rightarrow> real list \<Rightarrow> real list" where
  "sub_at x idx m = scatter x idx (map2 (\<lambda>a b. a - b) (gather x idx) m)"

definition div_at :: "real list \<Rightarrow> nat list \<Rightarrow> real list \<Rightarrow> real list" where
  "div_at x idx s = scatter x idx (map2 (\<lambda>a b. a / b) (gather x idx) s)"

text \<open>\<^verbatim>\<open>_fix_dih\<close> (internal.py, lines 297-300) on one row.\<close>

definition fix_dih :: "nat list \<Rightarrow> real list \<Rightarrow> real list" where
  "fix_dih dih_ix x = scatter x dih_ix (map fix_dih_val (gather x dih_ix))"

text \<open>
  The default standard deviations (the dictionary \<^verbatim>\<open>default_std\<close>) and the
  transform object: the index buffers, the statistics buffers, \<^verbatim>\<open>scale_jac\<close>, and
  the attribute \<^verbatim>\<open>angle_loss\<close>, which does not exist before the first call of
  \<^verbatim>\<open>inverse\<close>.
\<close>

record default_std =
  default_bond :: real
  default_angle :: real
  default_dih :: real

record ict =
  dims :: nat
  ix :: indices
  mean_bonds :: "real list"
  std_bonds :: "real list"
  mean_angles :: "real list"
  std_angles :: "real list"
  mean_dih :: "real list"
  std_dih :: "real list"
  scale_jac :: real
  angle_loss :: "real list option"

text \<open>
  \<^verbatim>\<open>_fwd\<close> (internal.py, lines 167-188) on one row. \<open>fwd_index_ok\<close> says that no
  index is out of range: \<^verbatim>\<open>self.rev_z_indices[:, 1]\<close> needs a two-dimensional
  buffer, so at least one z-matrix row; the four atoms of every row must be rows of
  \<^verbatim>\<open>inds_for_atom\<close>, and their columns must be columns of \<open>x\<close>.
\<close>

definition fwd_index_ok :: "indices \<Rightarrow> nat \<Rightarrow> bool" where
  "fwd_index_ok ixs ncols =
     (rev_z_indices ixs \<noteq> []
      \<and> (\<forall>q\<in>set (rev_z_indices ixs). \<forall>a\<in>quad_atoms q.
            a < length (inds_for_atom ixs)
            \<and> (\<forall>c\<in>set (flat3 (inds_for_atom ixs ! a)). c < ncols)))"

definition fwd_row :: "indices \<Rightarrow> real list \<Rightarrow> real list \<times> real" where
  "fwd_row ixs x =
     (let inds1 = map (\<lambda>q. inds_for_atom ixs ! fst (snd q)) (rev_z_indices ixs);
          inds2 = map (\<lambda>q. inds_for_atom ixs ! fst (snd (snd q))) (rev_z_indices ixs);
          inds3 = map (\<lambda>q. inds_for_atom ixs ! snd (snd (snd q))) (rev_z_indices ixs);
          inds4 = map (\<lambda>q. inds_for_atom ixs ! fst q) (rev_z_indices ixs);
          bonds = calc_bonds inds1 inds4 x;
          angles = calc_angles inds2 inds1 inds4 x;
          dihedrals = calc_dihedrals inds3 inds2 inds1 inds4 x;
          jac = - sum_list (map2 (\<lambda>b a. 2 * ln b + ln \<bar>sin a\<bar>) bonds angles);
          x = scatter x (map fst inds4) bonds;
          x = scatter x (map (\<lambda>i. fst (snd i)) inds4) angles;
          x = scatter x (map (\<lambda>i. snd (snd i)) inds4) dihedrals
      in (x, jac))"

definition fwd :: "indices \<Rightarrow> real list \<Rightarrow> error + real list \<times> real" where
  "fwd ixs x = (if fwd_index_ok ixs (length x) then Inr (fwd_row ixs x) else Inl IndexError)"

text \<open>
  \<^verbatim>\<open>forward\<close> (internal.py, lines 156-165) on one row; the source's \<^verbatim>\<open>trans\<close> is
  \<open>trans_x\<close>.
\<close>

definition forward :: "ict \<Rightarrow> real list \<Rightarrow> error + real list \<times> real" where
  "forward t x =
     (case fwd (ix t) x of
        Inl e \<Rightarrow> Inl e
      | Inr (trans_x, jac) \<Rightarrow>
         (let trans_x = sub_at trans_x (bond_indices (ix t)) (mean_bonds t);
              trans_x = div_at trans_x (bond_indices (ix t)) (std_bonds t);
              trans_x = sub_at trans_x (angle_indices (ix t)) (mean_angles t);
              trans_x = div_at trans_x (angle_indices (ix t)) (std_angles t);
              trans_x = sub_at trans_x (dih_indices (ix t)) (mean_dih t);
              trans_x = fix_dih (dih_indices (ix t)) trans_x;
              trans_x = div_at trans_x (dih_indices (ix t)) (std_dih t)
          in Inr (trans_x, jac + scale_jac t)))"

text \<open>
  \<^verbatim>\<open>_periodic_angle_loss\<close> (internal.py, lines 423-438) on one row: the angles of
  the atoms of one block.
\<close>

definition periodic_angle_loss :: "real list \<Rightarrow> real" where
  "periodic_angle_loss angles =
     (let zero = 0;
          positive_loss = sum_list (map (\<lambda>a. (if a > pi then a - pi else zero)\<^sup>2) angles);
          negative_loss = sum_list (map (\<lambda>a. (if a < - pi then a + pi else zero)\<^sup>2) angles)
      in positive_loss + negative_loss)"

text \<open>
  The un-normalised bond, angle and dihedral of atom \<open>a\<close> (internal.py, lines 222-241):
  column \<open>3a\<close>, \<open>3a + 1\<close> or \<open>3a + 2\<close> of the row, times the standard deviation plus the
  mean at \<^verbatim>\<open>atom_to_stats[a]\<close>.
\<close>

definition raw_bond :: "ict \<Rightarrow> real list \<Rightarrow> nat \<Rightarrow> real" where
  "raw_bond t x a = x ! (3 * a) * std_bonds t ! (atom_to_stats (ix t) ! a)
                     + mean_bonds t ! (atom_to_stats (ix t) ! a)"

definition raw_angle :: "ict \<Rightarrow> real list \<Rightarrow> nat \<Rightarrow> real" where
  "raw_angle t x a = x ! (3 * a + 1) * std_angles t ! (atom_to_stats (ix t) ! a)
                      + mean_angles t ! (atom_to_stats (ix t) ! a)"

definition raw_dih :: "ict \<Rightarrow> real list \<Rightarrow> nat \<Rightarrow> real" where
  "raw_dih t x a = x ! (3 * a + 2) * std_dih t ! (atom_to_stats (ix t) ! a)
                    + mean_dih t ! (atom_to_stats (ix t) ! a)"

text \<open>
  The indices one round of the block loop reads: the block is a two-dimensional
  tensor, so not empty; the three columns of every atom, its entry of
  \<^verbatim>\<open>atom_to_stats\<close> and the statistics there; the reference positions in \<open>cart\<close>.
\<close>

definition block_index_ok :: "ict \<Rightarrow> nat \<Rightarrow> nat \<Rightarrow> quad list \<Rightarrow> bool" where
  "block_index_ok t ncols ncart block =
     (block \<noteq> []
      \<and> (\<forall>q\<in>set block.
            3 * fst q + 2 < ncols
            \<and> fst q < length (atom_to_stats (ix t))
            \<and> atom_to_stats (ix t) ! fst q < length (std_bonds t)
            \<and> atom_to_stats (ix t) ! fst q < length (mean_bonds t)
            \<and> atom_to_stats (ix t) ! fst q < length (std_angles t)
            \<and> atom_to_stats (ix t) ! fst q < length (mean_angles t)
            \<and> atom_to_stats (ix t) ! fst q < length (std_dih t)
            \<and> atom_to_stats (ix t) ! fst q < length (mean_dih t)
            \<and> (\<forall>p\<in>quad_refs q. p < ncart)))"

text \<open>
  One round of \<^verbatim>\<open>for block in self.rev_blocks\<close> (internal.py, lines 216-257). The
  state is \<open>cart\<close>, \<open>jac\<close> and \<^verbatim>\<open>self.angle_loss\<close> of the row.
\<close>

definition inverse_block :: "ict \<Rightarrow> real list \<Rightarrow> quad list \<Rightarrow> vec3 list \<times> real \<times> real
    \<Rightarrow> error + vec3 list \<times> real \<times> real" where
  "inverse_block t x block st =
     (case st of (cart, jac, loss) \<Rightarrow>
       if \<not> block_index_ok t (length x) (length cart) block then Inl IndexError
       else
        (let atoms_to_build = map fst block;
             ref_atoms = map snd block;
             bonds = map (raw_bond t x) atoms_to_build;
             angles = map (raw_angle t x) atoms_to_build;
             dihs = map (raw_dih t x) atoms_to_build;
             loss = loss + periodic_angle_loss angles;
             loss = loss + periodic_angle_loss dihs;
             dihs = map inverse_fix_dih dihs;
             (new_cart, cart_jac) = reconstruct_cart cart ref_atoms bonds angles dihs;
             jac = jac + cart_jac;
             cart = cart @ new_cart
         in Inr (cart, jac, loss)))"

fun inverse_blocks :: "ict \<Rightarrow> real list \<Rightarrow> quad list list \<Rightarrow> vec3 list \<times> real \<times> real
    \<Rightarrow> error + vec3 list \<times> real \<times> real" where
  "inverse_blocks t x [] st = Inr st"
| "inverse_blocks t x (block # blocks) st =
     (case inverse_block t x block st of
        Inl e \<Rightarrow> Inl e
      | Inr st' \<Rightarrow> inverse_blocks t x blocks st')"

text \<open>\<^verbatim>\<open>.view(n_batch, -1, 3)\<close> on one row, and the flattening \<^verbatim>\<open>.view(n_batch, -1)\<close>.\<close>

fun view3 :: "real list \<Rightarrow> vec3 list" where
  "view3 (a # b # c # xs) = (a, b, c) # view3 xs"
| "view3 xs = []"

definition flatten3 :: "vec3 list \<Rightarrow> real list" where
  "flatten3 cart = concat (map (\<lambda>v. case v of (a, b, c) \<Rightarrow> [a, b, c]) cart)"

text \<open>
  \<^verbatim>\<open>inverse\<close> (internal.py, lines 190-261) on one row: the Cartesian row, the log
  Jacobian, and the row's entry of \<^verbatim>\<open>self.angle_loss\<close>, which starts from zero in
  every call (\<^verbatim>\<open>torch.zeros_like(jac)\<close>).
\<close>

definition inverse_row :: "ict \<Rightarrow> real list \<Rightarrow> error + real list \<times> real \<times> real" where
  "inverse_row t x =
     (if \<exists>c\<in>set (init_cart_indices (ix t)). length x \<le> c then Inl IndexError
      else
       (let cart = view3 (gather x (init_cart_indices (ix t)));
            jac = 0;
            loss = 0
        in (case inverse_blocks t x (rev_blocks (ix t)) (cart, jac, loss) of
              Inl e \<Rightarrow> Inl e
            | Inr (cart, jac, loss) \<Rightarrow>
               if \<exists>p\<in>set (rev_perm_inv (ix t)). length cart \<le> p then Inl IndexError
               else
                (let cart = map (\<lambda>p. cart ! p) (rev_perm_inv (ix t));
                     cart = flatten3 cart
                 in Inr (cart, jac - scale_jac t, loss)))))"

text \<open>
  \<^verbatim>\<open>inverse\<close> on a batch: the rows of the result, the log Jacobians, and the object
  with \<^verbatim>\<open>self.angle_loss\<close> set. The first row that fails gives the exception.
\<close>

fun collect_rows :: "(error + 'a) list \<Rightarrow> error + 'a list" where
  "collect_rows [] = Inr []"
| "collect_rows (r # rs) =
     (case r of
        Inl e \<Rightarrow> Inl e
      | Inr v \<Rightarrow> (case collect_rows rs of Inl e \<Rightarrow> Inl e | Inr vs \<Rightarrow> Inr (v # vs)))"

definition inverse :: "ict \<Rightarrow> real list list \<Rightarrow> error + (real list list \<times> real list) \<times> ict" where
  "inverse t xs =
     (case collect_rows (map (inverse_row t) xs) of
        Inl e \<Rightarrow> Inl e
      | Inr rs \<Rightarrow>
         Inr ((map fst rs, map (\<lambda>r. fst (snd r)) rs),
              t\<lparr>angle_loss := Some (map (\<lambda>r. snd (snd r)) rs)\<rparr>))"

section \<open>The periodic-angle penalty\<close>

text \<open>
  The penalty of one angle in the words of the specification: \<open>(a - \<pi>)\<^sup>2\<close> above
  \<open>\<pi>\<close>, \<open>(a + \<pi>)\<^sup>2\<close> below \<open>-\<pi>\<close>, and 0 otherwise.
\<close>

definition penalty :: "real \<Rightarrow> real" where
  "penalty a = (if a > pi then (a - pi)\<^sup>2 else if a < - pi then (a + pi)\<^sup>2 else 0)"

lemma periodic_angle_loss_penalty: "periodic_angle_loss angles = sum_list (map penalty angles)"
proof -
  have p: "(if a > pi then a - pi else 0)\<^sup>2 + (if a < - pi then a + pi else 0)\<^sup>2 = penalty a" for a
  proof -
    have "\<not> (a > pi \<and> a < - pi)" using pi_gt_zero by linarith
    then show ?thesis by (auto simp: penalty_def)
  qed
  have "periodic_angle_loss angles
      = (\<Sum>a\<leftarrow>angles. (if a > pi then a - pi else 0)\<^sup>2 + (if a < - pi then a + pi else 0)\<^sup>2)"
    unfolding periodic_angle_loss_def Let_def by (simp add: sum_list_addf)
  then show ?thesis unfolding p .
qed

lemma penalty_max: "penalty a = (max 0 (a - pi))\<^sup>2 + (max 0 (- pi - a))\<^sup>2"
proof -
  have "\<not> (a > pi \<and> a < - pi)" using pi_gt_zero by linarith
  then show ?thesis by (auto simp: penalty_def max_def power2_eq_square algebra_simps)
qed

lemma penalty_continuous: "continuous_on UNIV penalty"
proof -
  have "continuous_on UNIV (\<lambda>a. (max 0 (a - pi))\<^sup>2 + (max 0 (- pi - a))\<^sup>2)"
    by (intro continuous_intros)
  then show ?thesis using penalty_max by (simp add: fun_eq_iff[symmetric] ext)
qed

lemma reconstruct_cart_length:
  "length bonds = length ref_atoms \<Longrightarrow> length angles = length ref_atoms \<Longrightarrow>
   length dihs = length ref_atoms \<Longrightarrow>
   length (fst (reconstruct_cart cart ref_atoms bonds angles dihs)) = length ref_atoms"
  by (simp add: reconstruct_cart_def Let_def)

text \<open>The sums a call of \<^verbatim>\<open>inverse\<close> accumulates over the atoms of its blocks.\<close>

definition block_loss :: "ict \<Rightarrow> real list \<Rightarrow> quad list \<Rightarrow> real" where
  "block_loss t x block =
     (\<Sum>q\<leftarrow>block. penalty (raw_angle t x (fst q)) + penalty (raw_dih t x (fst q)))"

definition block_jac :: "ict \<Rightarrow> real list \<Rightarrow> quad list \<Rightarrow> real" where
  "block_jac t x block = (\<Sum>q\<leftarrow>block. jac_term (raw_bond t x (fst q)) (raw_angle t x (fst q)))"

lemma inverse_block_Inr:
  assumes "inverse_block t x block (cart, jac, loss) = Inr (cart', jac', loss')"
  shows "block_index_ok t (length x) (length cart) block"
    and "loss' = loss + block_loss t x block"
    and "jac' = jac + block_jac t x block"
    and "cart' = cart @ fst (reconstruct_cart cart (map snd block) (map (raw_bond t x) (map fst block))
            (map (raw_angle t x) (map fst block))
            (map inverse_fix_dih (map (raw_dih t x) (map fst block))))"
    and "length cart' = length cart + length block"
proof -
  show ok: "block_index_ok t (length x) (length cart) block"
    using assms unfolding inverse_block_def by (auto split: if_splits)
  have e: "inverse_block t x block (cart, jac, loss) =
      Inr (cart @ fst (reconstruct_cart cart (map snd block) (map (raw_bond t x) (map fst block))
            (map (raw_angle t x) (map fst block))
            (map inverse_fix_dih (map (raw_dih t x) (map fst block)))),
           jac + snd (reconstruct_cart cart (map snd block) (map (raw_bond t x) (map fst block))
            (map (raw_angle t x) (map fst block))
            (map inverse_fix_dih (map (raw_dih t x) (map fst block)))),
           loss + periodic_angle_loss (map (raw_angle t x) (map fst block))
                + periodic_angle_loss (map (raw_dih t x) (map fst block)))"
    using ok unfolding inverse_block_def Let_def by (simp add: case_prod_beta)
  have j: "snd (reconstruct_cart cart (map snd block) (map (raw_bond t x) (map fst block))
            (map (raw_angle t x) (map fst block))
            (map inverse_fix_dih (map (raw_dih t x) (map fst block)))) = block_jac t x block"
    unfolding reconstruct_cart_def Let_def block_jac_def
    by (simp add: zip_map_map comp_def zip_same_conv_map)
  have l: "periodic_angle_loss (map (raw_angle t x) (map fst block))
                + periodic_angle_loss (map (raw_dih t x) (map fst block)) = block_loss t x block"
    unfolding periodic_angle_loss_penalty block_loss_def
    by (simp add: comp_def sum_list_addf)
  from assms e show "loss' = loss + block_loss t x block" using l by simp
  from assms e show "jac' = jac + block_jac t x block" using j by simp
  from assms e show c: "cart' = cart @ fst (reconstruct_cart cart (map snd block) (map (raw_bond t x) (map fst block))
            (map (raw_angle t x) (map fst block))
            (map inverse_fix_dih (map (raw_dih t x) (map fst block))))" by simp
  show "length cart' = length cart + length block"
    unfolding c by (simp add: reconstruct_cart_length)
qed

lemma inverse_blocks_Inr:
  assumes "inverse_blocks t x blocks (cart, jac, loss) = Inr (cart', jac', loss')"
  shows "loss' = loss + block_loss t x (concat blocks)"
    and "jac' = jac + block_jac t x (concat blocks)"
    and "length cart' = length cart + length (concat blocks)"
    and "take (length cart) cart' = cart"
  using assms
proof (induction blocks arbitrary: cart jac loss)
  case Nil
  {
    case 1 then show ?case by (simp add: block_loss_def)
  next
    case 2 then show ?case by (simp add: block_jac_def)
  next
    case 3 then show ?case by simp
  next
    case 4 then show ?case by simp
  }
next
  case (Cons b blocks)
  {
    fix cart jac loss
    assume a: "inverse_blocks t x (b # blocks) (cart, jac, loss) = Inr (cart', jac', loss')"
    then obtain c1 j1 l1 where s: "inverse_block t x b (cart, jac, loss) = Inr (c1, j1, l1)"
      and r: "inverse_blocks t x blocks (c1, j1, l1) = Inr (cart', jac', loss')"
      by (auto split: sum.splits)
    note B = inverse_block_Inr[OF s]
    have "loss' = loss + block_loss t x (concat (b # blocks))"
      using Cons.IH(1)[OF r] B(2) by (simp add: block_loss_def)
    moreover have "jac' = jac + block_jac t x (concat (b # blocks))"
      using Cons.IH(2)[OF r] B(3) by (simp add: block_jac_def)
    moreover have "length cart' = length cart + length (concat (b # blocks))"
      using Cons.IH(3)[OF r] B(5) by simp
    moreover have "take (length cart) cart' = cart"
    proof -
      have "take (length cart) cart' = take (length cart) (take (length c1) cart')"
        using B(5) by (simp add: min_def)
      also have "\<dots> = take (length cart) c1" using Cons.IH(4)[OF r] by simp
      also have "\<dots> = cart" using B(4) by simp
      finally show ?thesis .
    qed
    ultimately have "loss' = loss + block_loss t x (concat (b # blocks))
      \<and> jac' = jac + block_jac t x (concat (b # blocks))
      \<and> length cart' = length cart + length (concat (b # blocks))
      \<and> take (length cart) cart' = cart" by blast
  } note step = this
  {
    case 1 then show ?case using step by blast
  next
    case 2 then show ?case using step by blast
  next
    case 3 then show ?case using step by blast
  next
    case 4 then show ?case using step by blast
  }
qed

lemma collect_rows_Inr:
  "collect_rows rs = Inr vs \<Longrightarrow> rs = map Inr vs"
  by (induction rs arbitrary: vs) (auto split: sum.splits)

lemma inverse_row_Inr:
  assumes "inverse_row t x = Inr (c, j, l)"
  shows "l = block_loss t x (concat (rev_blocks (ix t)))"
    and "j = block_jac t x (concat (rev_blocks (ix t))) - scale_jac t"
proof -
  from assms obtain c' j' l' where
    b: "inverse_blocks t x (rev_blocks (ix t)) (view3 (gather x (init_cart_indices (ix t))), 0, 0)
          = Inr (c', j', l')"
    and e: "j = j' - scale_jac t" "l = l'"
    unfolding inverse_row_def Let_def by (auto split: if_splits sum.splits)
  from inverse_blocks_Inr(1,2)[OF b] e
  show "l = block_loss t x (concat (rev_blocks (ix t)))"
    and "j = block_jac t x (concat (rev_blocks (ix t))) - scale_jac t" by simp_all
qed

lemma inverse_angle_loss:
  assumes "inverse t xs = Inr (res, t')"
  shows "angle_loss t' = Some (map (\<lambda>x. block_loss t x (concat (rev_blocks (ix t)))) xs)"
proof -
  from assms obtain rs where rs: "collect_rows (map (inverse_row t) xs) = Inr rs"
    and t': "t' = t\<lparr>angle_loss := Some (map (\<lambda>r. snd (snd r)) rs)\<rparr>"
    unfolding inverse_def by (auto split: sum.splits)
  from collect_rows_Inr[OF rs] have m: "map (inverse_row t) xs = map Inr rs" .
  have "map (\<lambda>r. snd (snd r)) rs = map (\<lambda>x. block_loss t x (concat (rev_blocks (ix t)))) xs"
  proof (rule nth_equalityI)
    show "length (map (\<lambda>r. snd (snd r)) rs) = length (map (\<lambda>x. block_loss t x (concat (rev_blocks (ix t)))) xs)"
      using m by (metis length_map)
  next
    fix i assume "i < length (map (\<lambda>r. snd (snd r)) rs)"
    then have i: "i < length rs" "i < length xs" using m by (simp, metis length_map)
    have "inverse_row t (xs ! i) = Inr (rs ! i)" using m i by (metis nth_map)
    then have "inverse_row t (xs ! i) = Inr (fst (rs ! i), fst (snd (rs ! i)), snd (snd (rs ! i)))"
      by simp
    from inverse_row_Inr(1)[OF this] i
    show "map (\<lambda>r. snd (snd r)) rs ! i = map (\<lambda>x. block_loss t x (concat (rev_blocks (ix t)))) xs ! i"
      by simp
  qed
  then show ?thesis unfolding t' by simp
qed

lemma inverse_row_angle_loss_indep: "inverse_row (t\<lparr>angle_loss := l\<rparr>) x = inverse_row t x"
proof -
  have r: "raw_bond (t\<lparr>angle_loss := l\<rparr>) = raw_bond t"
    "raw_angle (t\<lparr>angle_loss := l\<rparr>) = raw_angle t"
    "raw_dih (t\<lparr>angle_loss := l\<rparr>) = raw_dih t"
    "block_index_ok (t\<lparr>angle_loss := l\<rparr>) = block_index_ok t"
    by (simp_all add: fun_eq_iff raw_bond_def raw_angle_def raw_dih_def block_index_ok_def)
  have b: "inverse_block (t\<lparr>angle_loss := l\<rparr>) x blk st = inverse_block t x blk st" for blk st
    unfolding inverse_block_def r ..
  have "inverse_blocks (t\<lparr>angle_loss := l\<rparr>) x blks st = inverse_blocks t x blks st" for blks st
    by (induction blks arbitrary: st) (simp_all add: b split: sum.splits)
  then show ?thesis unfolding inverse_row_def by (simp split: sum.splits prod.splits)
qed

lemma inverse_angle_loss_indep: "inverse (t\<lparr>angle_loss := l\<rparr>) xs = inverse t xs"
  unfolding inverse_def inverse_row_angle_loss_indep by (simp split: sum.splits)

text \<open>
  C8: after a call of \<^verbatim>\<open>inverse\<close> the attribute \<^verbatim>\<open>angle_loss\<close> holds, for each
  batch row \<open>x\<close>, the sum over the atoms \<open>a\<close> of all blocks of the penalty of the
  un-normalised angle \<open>x[3a + 1] * std_angles[s] + mean_angles[s]\<close> and of the
  un-normalised dihedral \<open>x[3a + 2] * std_dih[s] + mean_dih[s]\<close>, where \<open>s\<close> is
  \<^verbatim>\<open>atom_to_stats[a]\<close>; the value the attribute had before the call has no effect on
  the call; the penalty of one angle is continuous, zero on \<open>[-\<pi>, \<pi>]\<close>, and \<open>\<epsilon>\<^sup>2\<close> at
  \<open>\<pi> + \<epsilon>\<close> for \<open>\<epsilon> \<ge> 0\<close>.
\<close>

theorem periodic_angle_penalty:
  "(inverse t xs = Inr (res, t') \<longrightarrow>
      angle_loss t' = Some (map (\<lambda>x. \<Sum>q\<leftarrow>concat (rev_blocks (ix t)).
          penalty (x ! (3 * fst q + 1) * std_angles t ! (atom_to_stats (ix t) ! fst q)
                     + mean_angles t ! (atom_to_stats (ix t) ! fst q))
          + penalty (x ! (3 * fst q + 2) * std_dih t ! (atom_to_stats (ix t) ! fst q)
                     + mean_dih t ! (atom_to_stats (ix t) ! fst q))) xs))
   \<and> inverse (t\<lparr>angle_loss := previous\<rparr>) xs = inverse t xs
   \<and> (\<forall>v. penalty v = (if v > pi then (v - pi)\<^sup>2 else if v < - pi then (v + pi)\<^sup>2 else 0))
   \<and> continuous_on UNIV penalty
   \<and> (- pi \<le> a \<and> a \<le> pi \<longrightarrow> penalty a = 0)
   \<and> (0 \<le> eps \<longrightarrow> penalty (pi + eps) = eps\<^sup>2)"
proof -
  have 1: "inverse t xs = Inr (res, t') \<longrightarrow>
      angle_loss t' = Some (map (\<lambda>x. \<Sum>q\<leftarrow>concat (rev_blocks (ix t)).
          penalty (x ! (3 * fst q + 1) * std_angles t ! (atom_to_stats (ix t) ! fst q)
                     + mean_angles t ! (atom_to_stats (ix t) ! fst q))
          + penalty (x ! (3 * fst q + 2) * std_dih t ! (atom_to_stats (ix t) ! fst q)
                     + mean_dih t ! (atom_to_stats (ix t) ! fst q))) xs)"
    using inverse_angle_loss[of t xs res t'] unfolding block_loss_def raw_angle_def raw_dih_def
    by blast
  have 2: "- pi \<le> a \<and> a \<le> pi \<longrightarrow> penalty a = 0" by (simp add: penalty_def)
  have 3: "0 \<le> eps \<longrightarrow> penalty (pi + eps) = eps\<^sup>2"
  proof
    assume e: "0 \<le> eps"
    show "penalty (pi + eps) = eps\<^sup>2"
    proof (cases "eps = 0")
      case True then show ?thesis by (simp add: penalty_def)
    next
      case False
      with e have "pi + eps > pi" by simp
      then show ?thesis by (simp add: penalty_def)
    qed
  qed
  have 4: "\<forall>v. penalty v = (if v > pi then (v - pi)\<^sup>2 else if v < - pi then (v + pi)\<^sup>2 else 0)"
    by (simp add: penalty_def)
  show ?thesis using 1 2 3 4 inverse_angle_loss_indep penalty_continuous by blast
qed

text \<open>
  A transform object of four atoms: the anchors 0, 1, 2 and atom 3 placed from the
  references 2, 1, 0, with unit standard deviations.
\<close>

definition example_ix :: indices where
  "example_ix = make_indices 4 [(3, 2, 1, 0)] [0, 1, 2] [0, 0, 0, 0] ([[(3, 2, 1, 0)]], [0, 1, 2, 3], [0, 1, 2, 3])"

definition example_ict :: ict where
  "example_ict = \<lparr>dims = 12, ix = example_ix,
     mean_bonds = [1], std_bonds = [1], mean_angles = [1], std_angles = [1],
     mean_dih = [0], std_dih = [1], scale_jac = 0, angle_loss = None\<rparr>"

lemma example_inverse:
  "\<exists>res t'. inverse example_ict [[0, 0, 0, 1, 0, 0, 0, 1, 0, 1, 3, - 4]] = Inr (res, t')"
  apply (simp add: inverse_def inverse_row_def example_ict_def example_ix_def make_indices_def
      make_inds_for_atom_def make_modified_indices_def flat3_def gather_def inverse_block_def
      block_index_ok_def quad_refs_def Let_def case_prod_beta reconstruct_cart_def)
  done

theorem periodic_angle_penalty_witness:
  "(\<exists>res t'. inverse example_ict [[0, 0, 0, 1, 0, 0, 0, 1, 0, 1, 3, - 4]] = Inr (res, t')
      \<and> angle_loss t' = Some [(4 - pi)\<^sup>2 + (- 4 + pi)\<^sup>2])
   \<and> (- pi \<le> 0 \<and> (0::real) \<le> pi) \<and> penalty 0 = 0
   \<and> (0::real) \<le> 1 / 2 \<and> penalty (pi + 1 / 2) = (1 / 2)\<^sup>2"
proof -
  let ?x = "[0, 0, 0, 1, 0, 0, 0, 1, 0, 1, 3, - 4 :: real]"
  obtain res t' where h: "inverse example_ict [?x] = Inr (res, t')"
    using example_inverse by blast
  have h2: "- pi \<le> 0 \<and> (0::real) \<le> pi" by simp
  have h3: "(0::real) \<le> 1 / 2" by simp
  note P = periodic_angle_penalty[of example_ict "[?x]" res t' None 0 "1 / 2"]
  from P h have l: "angle_loss t' = Some (map (\<lambda>x. \<Sum>q\<leftarrow>concat (rev_blocks (ix example_ict)).
          penalty (x ! (3 * fst q + 1) * std_angles example_ict ! (atom_to_stats (ix example_ict) ! fst q)
                     + mean_angles example_ict ! (atom_to_stats (ix example_ict) ! fst q))
          + penalty (x ! (3 * fst q + 2) * std_dih example_ict ! (atom_to_stats (ix example_ict) ! fst q)
                     + mean_dih example_ict ! (atom_to_stats (ix example_ict) ! fst q))) [?x])"
    by blast
  have p4: "penalty 4 = (4 - pi)\<^sup>2" using pi_less_4 by (simp add: penalty_def)
  have "\<not> pi < - 4" using pi_gt_zero by linarith
  then have m4: "penalty (- 4) = (- 4 + pi)\<^sup>2" using pi_less_4 by (simp add: penalty_def)
  have v: "angle_loss t' = Some [(4 - pi)\<^sup>2 + (- 4 + pi)\<^sup>2]"
    unfolding l by (simp add: example_ict_def example_ix_def make_indices_def p4 m4)
  from P h2 h3 have "penalty 0 = 0" "penalty (pi + 1 / 2) = (1 / 2)\<^sup>2" by blast+
  with h v h2 h3 show ?thesis by blast
qed

section \<open>Construction of the transform\<close>

text \<open>
  The reference dataset as the constructor receives it: \<open>None\<close> for Python's
  \<^verbatim>\<open>None\<close>, else a tensor with its shape and, for a two-dimensional tensor, its rows
  (\<^verbatim>\<open>data.shape[0]\<close> rows of \<^verbatim>\<open>data.shape[1]\<close> columns).
\<close>

datatype tensor = Tensor (shape: "nat list") (rows: "real list list")

text \<open>\<^verbatim>\<open>_validate_data\<close> (internal.py, lines 311-325); it returns the rows when it passes.\<close>

definition validate_data :: "nat \<Rightarrow> tensor option \<Rightarrow> error + real list list" where
  "validate_data dims_arg data =
     (case data of
        None \<Rightarrow> Inl ValueError
      | Some d \<Rightarrow>
         if length (shape d) \<noteq> 2 then Inl ValueError
         else (let n_dim = shape d ! 1
               in if n_dim \<noteq> dims_arg then Inl ValueError else Inr (rows d)))"

text \<open>
  A column of a batch, \<^verbatim>\<open>x[:, j]\<close>, and \<^verbatim>\<open>torch.mean\<close> and \<^verbatim>\<open>torch.std\<close> (the
  unbiased estimator) along the batch. Over the reals a division by zero gives 0 where
  torch gives \<^verbatim>\<open>nan\<close>: the mean of a dataset without rows.
\<close>

definition col :: "real list list \<Rightarrow> nat \<Rightarrow> real list" where
  "col x j = map (\<lambda>row. row ! j) x"

definition torch_mean :: "real list \<Rightarrow> real" where
  "torch_mean xs = sum_list xs / real (length xs)"

definition torch_std :: "real list \<Rightarrow> real" where
  "torch_std xs = sqrt ((\<Sum>x\<leftarrow>xs. (x - torch_mean xs)\<^sup>2) / (real (length xs) - 1))"

text \<open>
  The statistics setters (internal.py, lines 263-309). The bond and the angle setters
  are the same code on different columns; \<open>dflt\<close> is the entry of \<^verbatim>\<open>default_std\<close>.
\<close>

definition setup_mean :: "real list list \<Rightarrow> nat list \<Rightarrow> real list" where
  "setup_mean x idx = map (\<lambda>j. torch_mean (col x j)) idx"

definition setup_std :: "real list list \<Rightarrow> nat list \<Rightarrow> real list \<Rightarrow> real \<Rightarrow> real list" where
  "setup_std x idx means dflt =
     (if length x > 1 then map (\<lambda>j. torch_std (col x j)) idx
      else map (\<lambda>m. 1 * dflt) means)"

definition setup_mean_dih :: "real list list \<Rightarrow> nat list \<Rightarrow> real list" where
  "setup_mean_dih x idx =
     map (\<lambda>j. atan2 (torch_mean (map sin (col x j))) (torch_mean (map cos (col x j)))) idx"

text \<open>
  \<^verbatim>\<open>std_dih[self.ind_circ_dih] = 1.\<close>: an assignment at a list of positions, with an
  \<^verbatim>\<open>IndexError\<close> for a position outside the buffer.
\<close>

fun assign_ones :: "nat list \<Rightarrow> real list \<Rightarrow> error + real list" where
  "assign_ones [] buf = Inr buf"
| "assign_ones (i # is) buf =
     (if length buf \<le> i then Inl IndexError else assign_ones is (buf[i := 1]))"

definition setup_std_dih ::
    "real list list \<Rightarrow> nat list \<Rightarrow> real list \<Rightarrow> real \<Rightarrow> nat list \<Rightarrow> error + real list" where
  "setup_std_dih x idx means dflt ind_circ_dih =
     (if length x > 1 then Inr (map (\<lambda>j. torch_std (col x j)) idx)
      else assign_ones ind_circ_dih (map (\<lambda>m. 1 * dflt) means))"

text \<open>
  The torch functions of the \<^verbatim>\<open>shift_dih\<close> branch: \<^verbatim>\<open>torch.linspace\<close>,
  \<^verbatim>\<open>torch.histc\<close> (equal bins between \<open>lo\<close> and \<open>hi\<close>, the value \<open>hi\<close> in the last
  bin, values outside ignored) and \<^verbatim>\<open>torch.argmin\<close> (the first position of the
  minimum).
\<close>

definition linspace :: "real \<Rightarrow> real \<Rightarrow> nat \<Rightarrow> real list" where
  "linspace lo hi steps =
     (if steps = 1 then [lo]
      else map (\<lambda>k. lo + real k * ((hi - lo) / (real steps - 1))) [0..<steps])"

definition histc :: "real list \<Rightarrow> nat \<Rightarrow> real \<Rightarrow> real \<Rightarrow> nat list" where
  "histc xs bins lo hi =
     map (\<lambda>b. length (filter (\<lambda>v. lo \<le> v \<and> v \<le> hi
                  \<and> (if v = hi then bins - 1
                      else nat \<lfloor>(v - lo) / (hi - lo) * real bins\<rfloor>) = b) xs))
       [0..<bins]"

definition argmin :: "nat list \<Rightarrow> nat" where
  "argmin h = length (takeWhile (\<lambda>v. v \<noteq> Min (set h)) h)"

text \<open>
  The loop \<^verbatim>\<open>for i in self.ind_circ_dih\<close> of the \<^verbatim>\<open>shift_dih\<close> branch (internal.py,
  lines 139-148). The state is \<^verbatim>\<open>transformed\<close> and \<^verbatim>\<open>mean_dih\<close>;
  \<^verbatim>\<open>torch.histc\<close> raises a \<^verbatim>\<open>RuntimeError\<close> for zero bins.
\<close>

fun shift_dih_loop :: "nat \<Rightarrow> nat list \<Rightarrow> real list \<Rightarrow> nat list
    \<Rightarrow> real list list \<times> real list \<Rightarrow> error + real list list \<times> real list" where
  "shift_dih_loop hist_bins dih_ix stds [] st = Inr st"
| "shift_dih_loop hist_bins dih_ix stds (i # is) (transformed, means) =
     (if length dih_ix \<le> i \<or> length stds \<le> i \<or> length means \<le> i then Inl IndexError
      else if hist_bins = 0 then Inl RuntimeError
      else
       (let val = linspace (- pi) pi hist_bins;
            dih = col transformed (dih_ix ! i);
            dih = map (\<lambda>d. d * stds ! i + means ! i) dih;
            dih = map fix_dih_val dih;
            hist = histc dih hist_bins (- pi) pi;
            means = means[i := val ! argmin hist + pi];
            dih = map (\<lambda>d. (d - means ! i) / stds ! i) dih;
            dih = map fix_dih_val dih;
            transformed = map2 (\<lambda>row d. row[dih_ix ! i := d]) transformed dih
        in shift_dih_loop hist_bins dih_ix stds is (transformed, means)))"

text \<open>
  The statistics part of \<^verbatim>\<open>InternalCoordinateTransform.__init__\<close> (internal.py,
  lines 119-154), once the indices are set up and the data validated.
\<close>

definition fit_statistics :: "nat \<Rightarrow> indices \<Rightarrow> real list list \<Rightarrow> nat list \<Rightarrow> bool \<Rightarrow> nat
    \<Rightarrow> default_std \<Rightarrow> error + ict" where
  "fit_statistics dims_arg ixs data ind_circ_dih shift_dih hist_bins dstd =
     (if \<not> fwd_index_ok ixs dims_arg then Inl IndexError
      else
       (let transformed = map (\<lambda>row. fst (fwd_row ixs row)) data;
            m_bonds = setup_mean transformed (bond_indices ixs);
            transformed = map (\<lambda>row. sub_at row (bond_indices ixs) m_bonds) transformed;
            s_bonds = setup_std transformed (bond_indices ixs) m_bonds (default_bond dstd);
            transformed = map (\<lambda>row. div_at row (bond_indices ixs) s_bonds) transformed;
            m_angles = setup_mean transformed (angle_indices ixs);
            transformed = map (\<lambda>row. sub_at row (angle_indices ixs) m_angles) transformed;
            s_angles = setup_std transformed (angle_indices ixs) m_angles (default_angle dstd);
            transformed = map (\<lambda>row. div_at row (angle_indices ixs) s_angles) transformed;
            m_dih = setup_mean_dih transformed (dih_indices ixs);
            transformed = map (\<lambda>row. sub_at row (dih_indices ixs) m_dih) transformed;
            transformed = map (fix_dih (dih_indices ixs)) transformed
        in (case setup_std_dih transformed (dih_indices ixs) m_dih (default_dih dstd)
                   ind_circ_dih of
              Inl e \<Rightarrow> Inl e
            | Inr s_dih \<Rightarrow>
               (let transformed = map (\<lambda>row. div_at row (dih_indices ixs) s_dih) transformed
                in (case (if shift_dih
                          then shift_dih_loop hist_bins (dih_indices ixs) s_dih ind_circ_dih
                                 (transformed, m_dih)
                          else Inr (transformed, m_dih)) of
                      Inl e \<Rightarrow> Inl e
                    | Inr (transformed, m_dih) \<Rightarrow>
                       Inr \<lparr>dims = dims_arg, ix = ixs,
                            mean_bonds = m_bonds, std_bonds = s_bonds,
                            mean_angles = m_angles, std_angles = s_angles,
                            mean_dih = m_dih, std_dih = s_dih,
                            scale_jac = - (sum_list (map ln s_bonds)
                                           + sum_list (map ln s_angles)
                                           + sum_list (map ln s_dih)),
                            angle_loss = None\<rparr>)))))"

text \<open>
  \<^verbatim>\<open>InternalCoordinateTransform.__init__\<close> (internal.py, lines 108-154): the index
  setup comes first, then the validation of the data, then the statistics.
\<close>

definition construct_ict :: "nat \<Rightarrow> (nat \<times> nat list) list \<Rightarrow> nat list \<Rightarrow> tensor option
    \<Rightarrow> nat list \<Rightarrow> bool \<Rightarrow> nat \<Rightarrow> default_std \<Rightarrow> (error + ict) option" where
  "construct_ict dims_arg z_indices cart_indices data ind_circ_dih shift_dih hist_bins dstd =
     (case setup_indices dims_arg z_indices cart_indices of
        None \<Rightarrow> None
      | Some r \<Rightarrow>
         (case r of
            Inl e \<Rightarrow> Some (Inl e)
          | Inr ixs \<Rightarrow>
             (case validate_data dims_arg data of
                Inl e \<Rightarrow> Some (Inl e)
              | Inr d \<Rightarrow>
                 Some (fit_statistics dims_arg ixs d ind_circ_dih shift_dih hist_bins dstd))))"

section \<open>Column assignment and the index buffers\<close>

lemma scatter_length [simp]: "length (scatter x idx vals) = length x"
proof -
  have "length (fold (\<lambda>iv y. y[fst iv := snd iv]) ps x) = length x" for ps
    by (induction ps arbitrary: x) simp_all
  then show ?thesis unfolding scatter_def .
qed

lemma scatter_other: "j \<notin> set idx \<Longrightarrow> scatter x idx vals ! j = x ! j"
proof -
  have "j \<notin> fst ` set ps \<Longrightarrow> fold (\<lambda>iv y. y[fst iv := snd iv]) ps x ! j = x ! j" for ps
    by (induction ps arbitrary: x) auto
  moreover assume "j \<notin> set idx"
  then have "j \<notin> fst ` set (zip idx vals)" by (auto dest: set_zip_leftD)
  ultimately show ?thesis unfolding scatter_def by blast
qed

lemma scatter_nth:
  assumes "distinct idx" "length vals = length idx" "k < length idx" "idx ! k < length x"
  shows "scatter x idx vals ! (idx ! k) = vals ! k"
  using assms
proof (induction idx arbitrary: vals k x)
  case Nil
  then show ?case by simp
next
  case (Cons i idx)
  obtain v vs where vals: "vals = v # vs" using Cons.prems(2) by (cases vals) auto
  have step: "scatter x (i # idx) vals = scatter (x[i := v]) idx vs"
    unfolding scatter_def vals by simp
  show ?case
  proof (cases k)
    case 0
    have "i \<notin> set idx" using Cons.prems(1) by simp
    then have "scatter (x[i := v]) idx vs ! i = x[i := v] ! i" by (rule scatter_other)
    then show ?thesis using 0 step vals Cons.prems(4) by simp
  next
    case (Suc k')
    have "scatter (x[i := v]) idx vs ! (idx ! k') = vs ! k'"
      using Cons.prems Suc vals by (intro Cons.IH) auto
    then show ?thesis using Suc step vals by simp
  qed
qed

lemma sub_at_length [simp]: "length (sub_at x idx m) = length x"
  by (simp add: sub_at_def)

lemma div_at_length [simp]: "length (div_at x idx m) = length x"
  by (simp add: div_at_def)

lemma fix_dih_length [simp]: "length (fix_dih idx x) = length x"
  by (simp add: fix_dih_def)

lemma sub_at_other: "j \<notin> set idx \<Longrightarrow> sub_at x idx m ! j = x ! j"
  by (simp add: sub_at_def scatter_other)

lemma div_at_other: "j \<notin> set idx \<Longrightarrow> div_at x idx m ! j = x ! j"
  by (simp add: div_at_def scatter_other)

lemma fix_dih_other: "j \<notin> set idx \<Longrightarrow> fix_dih idx x ! j = x ! j"
  by (simp add: fix_dih_def scatter_other)

lemma sub_at_nth:
  assumes "distinct idx" "length m = length idx" "k < length idx" "idx ! k < length x"
  shows "sub_at x idx m ! (idx ! k) = x ! (idx ! k) - m ! k"
  unfolding sub_at_def using assms by (subst scatter_nth) (simp_all add: gather_def)

lemma div_at_nth:
  assumes "distinct idx" "length m = length idx" "k < length idx" "idx ! k < length x"
  shows "div_at x idx m ! (idx ! k) = x ! (idx ! k) / m ! k"
  unfolding div_at_def using assms by (subst scatter_nth) (simp_all add: gather_def)

lemma fix_dih_nth:
  assumes "distinct idx" "k < length idx" "idx ! k < length x"
  shows "fix_dih idx x ! (idx ! k) = fix_dih_val (x ! (idx ! k))"
  unfolding fix_dih_def using assms by (subst scatter_nth) (simp_all add: gather_def)

lemma stride3_concat:
  "stride3 (concat (map (\<lambda>a. [f a, g a, h a]) as)) = map f as"
  "stride3 (drop 1 (concat (map (\<lambda>a. [f a, g a, h a]) as))) = map g as"
  "stride3 (drop 2 (concat (map (\<lambda>a. [f a, g a, h a]) as))) = map h as"
proof -
  show "stride3 (concat (map (\<lambda>a. [f a, g a, h a]) as)) = map f as"
    by (induction as) simp_all
  show "stride3 (drop 1 (concat (map (\<lambda>a. [f a, g a, h a]) as))) = map g as"
  proof (induction as)
    case Nil
    then show ?case by simp
  next
    case (Cons a as)
    then show ?case by (cases as) simp_all
  qed
  show "stride3 (drop 2 (concat (map (\<lambda>a. [f a, g a, h a]) as))) = map h as"
  proof (induction as)
    case Nil
    then show ?case by simp
  next
    case (Cons a as)
    then show ?case by (cases as) simp_all
  qed
qed

lemma make_modified_indices_eq:
  assumes "\<forall>a\<in>set as. a < n"
  shows "make_modified_indices n as = concat (map (\<lambda>a. [3 * a, 3 * a + 1, 3 * a + 2]) as)"
proof -
  have "map (\<lambda>index. flat3 (make_inds_for_atom n ! index)) as = map (\<lambda>a. [3 * a, 3 * a + 1, 3 * a + 2]) as"
    using assms by (intro map_cong) (simp_all add: make_inds_for_atom_def flat3_def)
  then show ?thesis unfolding make_modified_indices_def by (rule arg_cong)
qed

text \<open>The index buffers of a transform whose setup returned.\<close>

lemma setup_indices_buffers:
  assumes "setup_indices n_dims z cart = Some (Inr ixs)"
  shows "inds_for_atom ixs = make_inds_for_atom (n_dims div 3)"
    and "\<forall>q\<in>set (sorted_z_indices ixs). fst q < n_dims div 3"
    and "distinct (map fst (sorted_z_indices ixs))"
    and "fst ` set (sorted_z_indices ixs) = fst ` set z"
    and "rev_z_indices ixs = rev (sorted_z_indices ixs)"
    and "bond_indices ixs = map (\<lambda>q. 3 * fst q) (sorted_z_indices ixs)"
    and "angle_indices ixs = map (\<lambda>q. 3 * fst q + 1) (sorted_z_indices ixs)"
    and "dih_indices ixs = map (\<lambda>q. 3 * fst q + 2) (sorted_z_indices ixs)"
    and "length (atom_to_stats ixs) = n_dims div 3"
    and "\<forall>k<length (sorted_z_indices ixs). atom_to_stats ixs ! fst (sorted_z_indices ixs ! k) = k"
    and "\<forall>c\<in>set cart. c < n_dims div 3"
    and "init_cart_indices ixs = concat (map (\<lambda>c. [3 * c, 3 * c + 1, 3 * c + 2]) cart)"
proof -
  let ?n = "n_dims div 3"
  from setup_indicesD[OF assms] obtain sz ats rp0 rpi0 c0 res where
    s: "sort_z_indices z = Inr sz"
    and a: "\<forall>a\<in>set (map fst sz). a < ?n"
    and fi: "fill_inverse 0 (map fst sz) (replicate ?n 0) = Inr ats"
    and c: "\<forall>c\<in>set cart. c < ?n"
    and ix: "ixs = make_indices ?n sz cart ats res"
    by blast
  obtain blocks rp rpi where res: "res = (blocks, rp, rpi)" by (cases res)
  note S = sort_z_indices_props[OF s]
  have sz: "sorted_z_indices ixs = sz" unfolding ix res make_indices_def by simp
  show "inds_for_atom ixs = make_inds_for_atom ?n" unfolding ix res make_indices_def by simp
  show "\<forall>q\<in>set (sorted_z_indices ixs). fst q < ?n" unfolding sz using a by simp
  show "distinct (map fst (sorted_z_indices ixs))" unfolding sz by (rule S(1))
  show "fst ` set (sorted_z_indices ixs) = fst ` set z" unfolding sz by (rule S(2))
  show "rev_z_indices ixs = rev (sorted_z_indices ixs)" unfolding ix res make_indices_def by simp
  note m = make_modified_indices_eq[OF a]
  show "bond_indices ixs = map (\<lambda>q. 3 * fst q) (sorted_z_indices ixs)"
    unfolding ix res make_indices_def by (simp add: m stride3_concat(1) comp_def)
  show "angle_indices ixs = map (\<lambda>q. 3 * fst q + 1) (sorted_z_indices ixs)"
    unfolding ix res make_indices_def
    by (simp add: m stride3_concat(2)[unfolded One_nat_def] comp_def del: drop_Suc_Cons)
  show "dih_indices ixs = map (\<lambda>q. 3 * fst q + 2) (sorted_z_indices ixs)"
    unfolding ix res make_indices_def by (simp add: m stride3_concat(3) comp_def)
  note F = fill_inverse_props[OF fi]
  show "length (atom_to_stats ixs) = ?n" unfolding ix res make_indices_def using F by simp
  show "\<forall>k<length (sorted_z_indices ixs). atom_to_stats ixs ! fst (sorted_z_indices ixs ! k) = k"
  proof (intro allI impI)
    fix k assume k: "k < length (sorted_z_indices ixs)"
    have "atom_to_stats ixs = ats" unfolding ix res make_indices_def by simp
    moreover have "ats ! (map fst sz ! k) = 0 + k" using F S(1) k sz by simp
    ultimately show "atom_to_stats ixs ! fst (sorted_z_indices ixs ! k) = k" using k sz by simp
  qed
  show "\<forall>c\<in>set cart. c < ?n" by (rule c)
  have "map (\<lambda>c. flat3 (make_inds_for_atom ?n ! c)) cart = map (\<lambda>c. [3 * c, 3 * c + 1, 3 * c + 2]) cart"
    using c by (intro map_cong) (simp_all add: make_inds_for_atom_def flat3_def)
  then have "concat (map (\<lambda>c. flat3 (make_inds_for_atom ?n ! c)) cart)
      = concat (map (\<lambda>c. [3 * c, 3 * c + 1, 3 * c + 2]) cart)" by (rule arg_cong)
  moreover have "init_cart_indices ixs = concat (map (\<lambda>c. flat3 (make_inds_for_atom ?n ! c)) cart)"
    unfolding ix res make_indices_def by simp
  ultimately show "init_cart_indices ixs = concat (map (\<lambda>c. [3 * c, 3 * c + 1, 3 * c + 2]) cart)"
    by simp
qed

section \<open>The fitted statistics\<close>

lemma construct_ictD:
  assumes "construct_ict d z cart data icd shift bins dstd = Some (Inr t)"
  shows "\<exists>ixs rs. setup_indices d z cart = Some (Inr ixs) \<and> validate_data d data = Inr rs
            \<and> fit_statistics d ixs rs icd shift bins dstd = Inr t"
  using assms unfolding construct_ict_def by (auto split: option.splits sum.splits)

lemma validate_dataD:
  assumes "validate_data d data = Inr rs"
  shows "\<exists>sh. data = Some (Tensor sh rs) \<and> length sh = 2 \<and> sh ! 1 = d"
proof (cases data)
  case None
  then show ?thesis using assms by (simp add: validate_data_def)
next
  case (Some a)
  obtain sh rws where a: "a = Tensor sh rws" by (cases a)
  show ?thesis using assms unfolding Some a validate_data_def Let_def
    by (auto split: if_splits)
qed

lemma col_map_other: "(\<And>row. f row ! j = row ! j) \<Longrightarrow> col (map f x) j = col x j"
  by (simp add: col_def)

lemma assign_ones_length: "assign_ones is buf = Inr buf' \<Longrightarrow> length buf' = length buf"
  by (induction "is" arbitrary: buf) (auto split: if_splits)

lemma assign_ones_nth:
  "assign_ones is buf = Inr buf' \<Longrightarrow> i < length buf \<Longrightarrow>
     buf' ! i = (if i \<in> set is then 1 else buf ! i)"
proof (induction "is" arbitrary: buf)
  case Nil
  then show ?case by simp
next
  case (Cons j js)
  from Cons.prems have r: "assign_ones js (buf[j := 1]) = Inr buf'" and j: "j < length buf"
    by (auto split: if_splits)
  from Cons.IH[OF r] Cons.prems(2) have "buf' ! i = (if i \<in> set js then 1 else buf[j := 1] ! i)"
    by simp
  then show ?case using j Cons.prems(2) by (auto simp: nth_list_update)
qed

lemma shift_dih_loop_length:
  "shift_dih_loop bins dih_ix stds is (tr, means) = Inr (tr', means') \<Longrightarrow>
     length means' = length means"
proof (induction "is" arbitrary: tr means)
  case Nil
  then show ?case by simp
next
  case (Cons i "is")
  from Cons.prems show ?case
    by (auto simp: Let_def split: if_splits dest!: Cons.IH)
qed

lemma setup_std_length: "length means = length idx \<Longrightarrow> length (setup_std x idx means dflt) = length idx"
  by (simp add: setup_std_def)

lemma fit_statisticsD:
  assumes "fit_statistics d ixs rs icd shift bins dstd = Inr t"
  shows "ix t = ixs" and "dims t = d" and "fwd_index_ok ixs d" and "angle_loss t = None"
    and "length (mean_bonds t) = length (bond_indices ixs)"
    and "length (std_bonds t) = length (bond_indices ixs)"
    and "length (mean_angles t) = length (angle_indices ixs)"
    and "length (std_angles t) = length (angle_indices ixs)"
    and "length (mean_dih t) = length (dih_indices ixs)"
    and "length (std_dih t) = length (dih_indices ixs)"
    and "scale_jac t = - (sum_list (map ln (std_bonds t)) + sum_list (map ln (std_angles t))
                          + sum_list (map ln (std_dih t)))"
proof -
  define T0 where "T0 = map (\<lambda>row. fst (fwd_row ixs row)) rs"
  define mb where "mb = setup_mean T0 (bond_indices ixs)"
  define T1 where "T1 = map (\<lambda>row. sub_at row (bond_indices ixs) mb) T0"
  define sb where "sb = setup_std T1 (bond_indices ixs) mb (default_bond dstd)"
  define T2 where "T2 = map (\<lambda>row. div_at row (bond_indices ixs) sb) T1"
  define ma where "ma = setup_mean T2 (angle_indices ixs)"
  define T3 where "T3 = map (\<lambda>row. sub_at row (angle_indices ixs) ma) T2"
  define sa where "sa = setup_std T3 (angle_indices ixs) ma (default_angle dstd)"
  define T4 where "T4 = map (\<lambda>row. div_at row (angle_indices ixs) sa) T3"
  define md where "md = setup_mean_dih T4 (dih_indices ixs)"
  define T5 where "T5 = map (\<lambda>row. sub_at row (dih_indices ixs) md) T4"
  define T6 where "T6 = map (fix_dih (dih_indices ixs)) T5"
  have ok: "fwd_index_ok ixs d" using assms unfolding fit_statistics_def by (auto split: if_splits)
  from assms ok obtain sd T7 md' where
    sd: "setup_std_dih T6 (dih_indices ixs) md (default_dih dstd) icd = Inr sd"
    and sh: "(if shift then shift_dih_loop bins (dih_indices ixs) sd icd
                 (map (\<lambda>row. div_at row (dih_indices ixs) sd) T6, md)
             else Inr (map (\<lambda>row. div_at row (dih_indices ixs) sd) T6, md)) = Inr (T7, md')"
    and t: "t = \<lparr>dims = d, ix = ixs, mean_bonds = mb, std_bonds = sb,
                            mean_angles = ma, std_angles = sa,
                            mean_dih = md', std_dih = sd,
                            scale_jac = - (sum_list (map ln sb)
                                           + sum_list (map ln sa)
                                           + sum_list (map ln sd)),
                            angle_loss = None\<rparr>"
    unfolding fit_statistics_def Let_def T0_def mb_def T1_def sb_def T2_def ma_def T3_def sa_def
      T4_def md_def T5_def T6_def
    by (auto split: sum.splits)
  show "ix t = ixs" "dims t = d" "angle_loss t = None" unfolding t by simp_all
  show "fwd_index_ok ixs d" by (rule ok)
  have lmb: "length mb = length (bond_indices ixs)" unfolding mb_def setup_mean_def by simp
  have lma: "length ma = length (angle_indices ixs)" unfolding ma_def setup_mean_def by simp
  have lmd: "length md = length (dih_indices ixs)" unfolding md_def setup_mean_dih_def by simp
  show "length (mean_bonds t) = length (bond_indices ixs)" unfolding t using lmb by simp
  show "length (std_bonds t) = length (bond_indices ixs)"
    unfolding t sb_def using setup_std_length[OF lmb] by simp
  show "length (mean_angles t) = length (angle_indices ixs)" unfolding t using lma by simp
  show "length (std_angles t) = length (angle_indices ixs)"
    unfolding t sa_def using setup_std_length[OF lma] by simp
  have "length md' = length md"
    using sh shift_dih_loop_length by (cases shift) auto
  then show "length (mean_dih t) = length (dih_indices ixs)" unfolding t using lmd by simp
  have "length sd = length (dih_indices ixs)"
    using sd lmd unfolding setup_std_dih_def by (auto split: if_splits dest: assign_ones_length)
  then show "length (std_dih t) = length (dih_indices ixs)" unfolding t by simp
  show "scale_jac t = - (sum_list (map ln (std_bonds t)) + sum_list (map ln (std_angles t))
                          + sum_list (map ln (std_dih t)))" unfolding t by simp
qed

lemma setup_mean_dih_cong:
  "(\<And>j. j \<in> set idx \<Longrightarrow> col x j = col y j) \<Longrightarrow> setup_mean_dih x idx = setup_mean_dih y idx"
  unfolding setup_mean_dih_def by (rule map_cong) simp_all

lemma fit_statistics_dih:
  assumes "fit_statistics d ixs rs icd shift bins dstd = Inr t"
    and dj: "set (dih_indices ixs) \<inter> (set (bond_indices ixs) \<union> set (angle_indices ixs)) = {}"
  shows "\<not> shift \<Longrightarrow>
           mean_dih t = setup_mean_dih (map (\<lambda>row. fst (fwd_row ixs row)) rs) (dih_indices ixs)"
    and "length rs \<le> 1 \<Longrightarrow>
           assign_ones icd (map (\<lambda>m. default_dih dstd) (dih_indices ixs)) = Inr (std_dih t)"
proof -
  define T0 where "T0 = map (\<lambda>row. fst (fwd_row ixs row)) rs"
  define mb where "mb = setup_mean T0 (bond_indices ixs)"
  define T1 where "T1 = map (\<lambda>row. sub_at row (bond_indices ixs) mb) T0"
  define sb where "sb = setup_std T1 (bond_indices ixs) mb (default_bond dstd)"
  define T2 where "T2 = map (\<lambda>row. div_at row (bond_indices ixs) sb) T1"
  define ma where "ma = setup_mean T2 (angle_indices ixs)"
  define T3 where "T3 = map (\<lambda>row. sub_at row (angle_indices ixs) ma) T2"
  define sa where "sa = setup_std T3 (angle_indices ixs) ma (default_angle dstd)"
  define T4 where "T4 = map (\<lambda>row. div_at row (angle_indices ixs) sa) T3"
  define md where "md = setup_mean_dih T4 (dih_indices ixs)"
  define T5 where "T5 = map (\<lambda>row. sub_at row (dih_indices ixs) md) T4"
  define T6 where "T6 = map (fix_dih (dih_indices ixs)) T5"
  have ok: "fwd_index_ok ixs d" using assms(1) unfolding fit_statistics_def by (auto split: if_splits)
  from assms(1) ok obtain sd T7 md' where
    sd: "setup_std_dih T6 (dih_indices ixs) md (default_dih dstd) icd = Inr sd"
    and sh: "(if shift then shift_dih_loop bins (dih_indices ixs) sd icd
                 (map (\<lambda>row. div_at row (dih_indices ixs) sd) T6, md)
             else Inr (map (\<lambda>row. div_at row (dih_indices ixs) sd) T6, md)) = Inr (T7, md')"
    and t: "t = \<lparr>dims = d, ix = ixs, mean_bonds = mb, std_bonds = sb,
                            mean_angles = ma, std_angles = sa,
                            mean_dih = md', std_dih = sd,
                            scale_jac = - (sum_list (map ln sb)
                                           + sum_list (map ln sa)
                                           + sum_list (map ln sd)),
                            angle_loss = None\<rparr>"
    unfolding fit_statistics_def Let_def T0_def mb_def T1_def sb_def T2_def ma_def T3_def sa_def
      T4_def md_def T5_def T6_def
    by (auto split: sum.splits)
  have c: "col T4 j = col T0 j" if "j \<in> set (dih_indices ixs)" for j
  proof -
    from that dj have nb: "j \<notin> set (bond_indices ixs)" and na: "j \<notin> set (angle_indices ixs)"
      by auto
    show ?thesis unfolding T4_def T3_def T2_def T1_def
      by (simp add: col_def div_at_other[OF na] sub_at_other[OF na] div_at_other[OF nb]
          sub_at_other[OF nb])
  qed
  have mdeq: "md = setup_mean_dih T0 (dih_indices ixs)"
    unfolding md_def by (rule setup_mean_dih_cong) (rule c)
  show "mean_dih t = setup_mean_dih (map (\<lambda>row. fst (fwd_row ixs row)) rs) (dih_indices ixs)"
    if "\<not> shift"
    using sh that mdeq unfolding t T0_def by simp
  have lmd: "length md = length (dih_indices ixs)" unfolding md_def setup_mean_dih_def by simp
  have len6: "length T6 = length rs" unfolding T6_def T5_def T4_def T3_def T2_def T1_def T0_def by simp
  show "assign_ones icd (map (\<lambda>m. default_dih dstd) (dih_indices ixs)) = Inr (std_dih t)"
    if "length rs \<le> 1"
  proof -
    have "map (\<lambda>m. 1 * default_dih dstd) md = map (\<lambda>m. default_dih dstd) (dih_indices ixs)"
      using lmd by (simp add: map_replicate_const)
    then show ?thesis using sd that len6 unfolding setup_std_dih_def t by simp
  qed
qed

lemma assign_ones_ok: "\<forall>i\<in>set is. i < length buf \<Longrightarrow> \<exists>buf'. assign_ones is buf = Inr buf'"
  by (induction "is" arbitrary: buf) auto

lemma shift_dih_loop_ok:
  assumes "\<forall>i\<in>set is. i < length dih_ix \<and> i < length stds \<and> i < length means" "0 < bins"
  shows "\<exists>r. shift_dih_loop bins dih_ix stds is (tr, means) = Inr r"
  using assms
proof (induction "is" arbitrary: tr means)
  case Nil
  then show ?case by simp
next
  case (Cons i "is")
  then show ?case by (simp add: Let_def)
qed

lemma fit_statistics_ok:
  assumes "fwd_index_ok ixs d" and "\<forall>i\<in>set icd. i < length (dih_indices ixs)"
    and "shift \<longrightarrow> 0 < bins"
  shows "\<exists>t. fit_statistics d ixs rs icd shift bins dstd = Inr t"
proof -
  define T0 where "T0 = map (\<lambda>row. fst (fwd_row ixs row)) rs"
  define mb where "mb = setup_mean T0 (bond_indices ixs)"
  define T1 where "T1 = map (\<lambda>row. sub_at row (bond_indices ixs) mb) T0"
  define sb where "sb = setup_std T1 (bond_indices ixs) mb (default_bond dstd)"
  define T2 where "T2 = map (\<lambda>row. div_at row (bond_indices ixs) sb) T1"
  define ma where "ma = setup_mean T2 (angle_indices ixs)"
  define T3 where "T3 = map (\<lambda>row. sub_at row (angle_indices ixs) ma) T2"
  define sa where "sa = setup_std T3 (angle_indices ixs) ma (default_angle dstd)"
  define T4 where "T4 = map (\<lambda>row. div_at row (angle_indices ixs) sa) T3"
  define md where "md = setup_mean_dih T4 (dih_indices ixs)"
  define T5 where "T5 = map (\<lambda>row. sub_at row (dih_indices ixs) md) T4"
  define T6 where "T6 = map (fix_dih (dih_indices ixs)) T5"
  have lmd: "length md = length (dih_indices ixs)" unfolding md_def setup_mean_dih_def by simp
  have "\<exists>sd. setup_std_dih T6 (dih_indices ixs) md (default_dih dstd) icd = Inr sd"
    unfolding setup_std_dih_def using assms(2) lmd by (auto intro!: assign_ones_ok)
  then obtain sd where sd: "setup_std_dih T6 (dih_indices ixs) md (default_dih dstd) icd = Inr sd"
    by blast
  have lsd: "length sd = length (dih_indices ixs)"
    using sd lmd unfolding setup_std_dih_def by (auto split: if_splits dest: assign_ones_length)
  have "\<exists>r. (if shift then shift_dih_loop bins (dih_indices ixs) sd icd
                 (map (\<lambda>row. div_at row (dih_indices ixs) sd) T6, md)
             else Inr (map (\<lambda>row. div_at row (dih_indices ixs) sd) T6, md)) = Inr r"
  proof (cases shift)
    case True
    have "\<forall>i\<in>set icd. i < length (dih_indices ixs) \<and> i < length sd \<and> i < length md"
      using assms(2) lmd lsd by simp
    from shift_dih_loop_ok[OF this] True assms(3) show ?thesis by simp
  next
    case False
    then show ?thesis by simp
  qed
  then obtain T7 md' where sh: "(if shift then shift_dih_loop bins (dih_indices ixs) sd icd
                 (map (\<lambda>row. div_at row (dih_indices ixs) sd) T6, md)
             else Inr (map (\<lambda>row. div_at row (dih_indices ixs) sd) T6, md)) = Inr (T7, md')"
    by (metis surj_pair)
  show ?thesis
    unfolding fit_statistics_def Let_def
    using assms(1) sd sh
    unfolding T0_def mb_def T1_def sb_def T2_def ma_def T3_def sa_def
      T4_def md_def T5_def T6_def
    by simp
qed

lemma index_lists_disjoint:
  assumes "setup_indices n_dims z cart = Some (Inr ixs)"
  shows "set (dih_indices ixs) \<inter> (set (bond_indices ixs) \<union> set (angle_indices ixs)) = {}"
    and "set (bond_indices ixs) \<inter> set (angle_indices ixs) = {}"
proof -
  note B = setup_indices_buffers[OF assms]
  have "3 * a + 2 \<noteq> 3 * b" "3 * a + 2 \<noteq> 3 * b + 1" "3 * a \<noteq> 3 * b + 1" for a b :: nat
    by presburger+
  then show "set (dih_indices ixs) \<inter> (set (bond_indices ixs) \<union> set (angle_indices ixs)) = {}"
    and "set (bond_indices ixs) \<inter> set (angle_indices ixs) = {}"
    unfolding B(6,7,8) by auto
qed

lemma construct_ict_dih:
  assumes "construct_ict d z cart (Some (Tensor sh rs)) icd shift bins dstd = Some (Inr t)"
  shows "\<not> shift \<Longrightarrow>
           mean_dih t = setup_mean_dih (map (\<lambda>row. fst (fwd_row (ix t) row)) rs) (dih_indices (ix t))"
    and "length rs \<le> 1 \<Longrightarrow> k < length (std_dih t) \<Longrightarrow>
           std_dih t ! k = (if k \<in> set icd then 1 else default_dih dstd)"
proof -
  from construct_ictD[OF assms] obtain ixs rs' where
    s: "setup_indices d z cart = Some (Inr ixs)"
    and v: "validate_data d (Some (Tensor sh rs)) = Inr rs'"
    and f: "fit_statistics d ixs rs' icd shift bins dstd = Inr t" by blast
  from validate_dataD[OF v] have rs: "rs' = rs" by auto
  note F = fit_statisticsD[OF f]
  note D = fit_statistics_dih[OF f index_lists_disjoint(1)[OF s]]
  show "mean_dih t = setup_mean_dih (map (\<lambda>row. fst (fwd_row (ix t) row)) rs) (dih_indices (ix t))"
    if "\<not> shift"
    using D(1)[OF that] unfolding F(1) rs .
  show "std_dih t ! k = (if k \<in> set icd then 1 else default_dih dstd)"
    if "length rs \<le> 1" "k < length (std_dih t)"
  proof -
    have a: "assign_ones icd (map (\<lambda>m. default_dih dstd) (dih_indices ixs)) = Inr (std_dih t)"
      using D(2) that(1) rs by simp
    have "k < length (map (\<lambda>m. default_dih dstd) (dih_indices ixs))"
      using that(2) F(10) by simp
    from assign_ones_nth[OF a this] this show ?thesis by simp
  qed
qed

text \<open>
  C7, as stated, has the unlisted dihedrals fall back on a standard deviation of 1. A
  dataset of one sample, no listed dihedral and the default \<^verbatim>\<open>default_std\<close>: the
  fitted standard deviation of the only dihedral is \<open>default_std['dih'] = 0.2\<close>.
\<close>

lemma example_setup: "setup_indices 12 [(3, [2, 1, 0])] [0, 1, 2] = Some (Inr example_ix)"
proof -
  have r: "replicate 4 (0::nat) = [0, 0, 0, 0]" by (simp add: numeral_eq_Suc)
  show ?thesis by (simp add: setup_eval_defs example_ix_def r)
qed

lemma example_fwd_index_ok: "fwd_index_ok example_ix 12"
  by (simp add: fwd_index_ok_def example_ix_def make_indices_def make_inds_for_atom_def
      make_modified_indices_def quad_atoms_def flat3_def)

lemma example_construct:
  "\<exists>t. construct_ict 12 [(3, [2, 1, 0])] [0, 1, 2]
         (Some (Tensor [1, 12] [[0, 0, 0, 1, 0, 0, 0, 1, 0, 1, 1, 1]])) [] False 100
         \<lparr>default_bond = 5 / 1000, default_angle = 15 / 100, default_dih = 2 / 10\<rparr> = Some (Inr t)"
proof -
  have v: "validate_data 12 (Some (Tensor [1, 12] [[0, 0, 0, 1, 0, 0, 0, 1, 0, 1, 1, 1]]))
      = Inr [[0, 0, 0, 1, 0, 0, 0, 1, 0, 1, 1, 1]]"
    by (simp add: validate_data_def)
  from fit_statistics_ok[OF example_fwd_index_ok, of "[]" False 100] obtain t where
    "fit_statistics 12 example_ix [[0, 0, 0, 1, 0, 0, 0, 1, 0, 1, 1, 1]] [] False 100
         \<lparr>default_bond = 5 / 1000, default_angle = 15 / 100, default_dih = 2 / 10\<rparr> = Inr t"
    by auto
  then show ?thesis unfolding construct_ict_def example_setup v by simp
qed

theorem circular_mean_counterexample:
  "map_option (map_sum id std_dih)
     (construct_ict 12 [(3, [2, 1, 0])] [0, 1, 2]
         (Some (Tensor [1, 12] [[0, 0, 0, 1, 0, 0, 0, 1, 0, 1, 1, 1]])) [] False 100
         \<lparr>default_bond = 5 / 1000, default_angle = 15 / 100, default_dih = 2 / 10\<rparr>)
   = Some (Inr [2 / 10])
   \<and> [2 / 10] \<noteq> [1::real]"
proof -
  from example_construct obtain t where
    c: "construct_ict 12 [(3, [2, 1, 0])] [0, 1, 2]
         (Some (Tensor [1, 12] [[0, 0, 0, 1, 0, 0, 0, 1, 0, 1, 1, 1]])) [] False 100
         \<lparr>default_bond = 5 / 1000, default_angle = 15 / 100, default_dih = 2 / 10\<rparr> = Some (Inr t)"
    by blast
  from construct_ictD[OF c] obtain ixs rs' where
    s: "setup_indices 12 [(3, [2, 1, 0])] [0, 1, 2] = Some (Inr ixs)"
    and f: "fit_statistics 12 ixs rs' [] False 100
         \<lparr>default_bond = 5 / 1000, default_angle = 15 / 100, default_dih = 2 / 10\<rparr> = Inr t" by blast
  have ixs: "ixs = example_ix" using s example_setup by simp
  have "length (std_dih t) = length (dih_indices example_ix)"
    using fit_statisticsD(10)[OF f] ixs by simp
  then have l: "length (std_dih t) = 1"
    by (simp add: example_ix_def make_indices_def make_modified_indices_def make_inds_for_atom_def
        flat3_def)
  have "std_dih t ! 0 = 2 / 10" using construct_ict_dih(2)[OF c, of 0] l by simp
  with l have "std_dih t = [2 / 10]" by (cases "std_dih t") auto
  then show ?thesis unfolding c by simp
qed

text \<open>
  C7, amended: the fitted dihedral mean of every z-matrix atom, listed or not, is the
  circular mean \<open>atan2 (mean sin) (mean cos)\<close> of its dihedral values over the dataset
  (unless \<^verbatim>\<open>shift_dih\<close> is set, which then overwrites the means of the listed
  entries); the list \<^verbatim>\<open>ind_circ_dih\<close> holds positions of the statistics vector, and
  with a dataset of at most one sample it selects the standard deviation 1 for the
  listed positions, while the others get \<^verbatim>\<open>default_std['dih']\<close>.
\<close>

theorem circular_mean_statistics:
  assumes "construct_ict d z cart (Some (Tensor sh rs)) icd shift bins dstd = Some (Inr t)"
  shows "(\<not> shift \<longrightarrow>
            mean_dih t = map (\<lambda>j. atan2 (torch_mean (map sin (col (map (\<lambda>row. fst (fwd_row (ix t) row)) rs) j)))
                                     (torch_mean (map cos (col (map (\<lambda>row. fst (fwd_row (ix t) row)) rs) j))))
                           (dih_indices (ix t)))
       \<and> (length rs \<le> 1 \<longrightarrow>
            (\<forall>k<length (std_dih t). std_dih t ! k = (if k \<in> set icd then 1 else default_dih dstd)))"
  using construct_ict_dih[OF assms] unfolding setup_mean_dih_def by blast

theorem circular_mean_statistics_witness:
  "\<exists>t. construct_ict 12 [(3, [2, 1, 0])] [0, 1, 2]
         (Some (Tensor [1, 12] [[0, 0, 0, 1, 0, 0, 0, 1, 0, 1, 1, 1]])) [] False 100
         \<lparr>default_bond = 5 / 1000, default_angle = 15 / 100, default_dih = 2 / 10\<rparr> = Some (Inr t)
     \<and> \<not> False \<and> length [[0, 0, 0, 1, 0, 0, 0, 1, 0, 1, 1, 1 :: real]] \<le> 1
     \<and> mean_dih t = map (\<lambda>j. atan2
            (torch_mean (map sin (col (map (\<lambda>row. fst (fwd_row (ix t) row))
                                     [[0, 0, 0, 1, 0, 0, 0, 1, 0, 1, 1, 1]]) j)))
            (torch_mean (map cos (col (map (\<lambda>row. fst (fwd_row (ix t) row))
                                     [[0, 0, 0, 1, 0, 0, 0, 1, 0, 1, 1, 1]]) j))))
          (dih_indices (ix t))
     \<and> (\<forall>k<length (std_dih t). std_dih t ! k = (if k \<in> set [] then 1 else 2 / 10))"
proof -
  from example_construct obtain t where
    c: "construct_ict 12 [(3, [2, 1, 0])] [0, 1, 2]
         (Some (Tensor [1, 12] [[0, 0, 0, 1, 0, 0, 0, 1, 0, 1, 1, 1]])) [] False 100
         \<lparr>default_bond = 5 / 1000, default_angle = 15 / 100, default_dih = 2 / 10\<rparr> = Some (Inr t)"
    by blast
  from circular_mean_statistics[OF c] c show ?thesis by (intro exI[of _ t]) simp
qed

section \<open>The complete transform\<close>

text \<open>
  \<^verbatim>\<open>CompleteInternalCoordinateTransform\<close> (internal.py, lines 462-593): the buffers
  of the object. Its \<^verbatim>\<open>scale_jac\<close> is \<open>scale_jac_complete\<close> here, the name being
  taken by the field of the inner transform.
\<close>

record cict =
  n_dim :: nat
  len_cart_inds :: nat
  ic_transform :: ict
  permute :: "nat list"
  permute_inv :: "nat list"
  mean_b1 :: real
  mean_b2 :: real
  mean_angle :: real
  std_b1 :: real
  std_b2 :: real
  std_angle :: real
  scale_jac_complete :: real

text \<open>
  The loop \<^verbatim>\<open>for i, j in enumerate(all_ind)\<close> that fills \<^verbatim>\<open>permute\<close> and
  \<^verbatim>\<open>permute_inv\<close> (internal.py, lines 493-499).
\<close>

fun fill_permute :: "nat \<Rightarrow> nat list \<Rightarrow> nat list \<Rightarrow> nat list \<Rightarrow> error + nat list \<times> nat list" where
  "fill_permute i [] p pinv = Inr (p, pinv)"
| "fill_permute i (j # js) p pinv =
     (if length p \<le> 3 * i + 2 \<or> length pinv \<le> 3 * j + 2 then Inl IndexError
      else fill_permute (i + 1) js
             (p[3 * i + 0 := 3 * j + 0, 3 * i + 1 := 3 * j + 1, 3 * i + 2 := 3 * j + 2])
             (pinv[3 * j + 0 := 3 * i + 0, 3 * j + 1 := 3 * i + 1, 3 * j + 2 := 3 * i + 2]))"

text \<open>
  \<^verbatim>\<open>_convert_last_internal\<close> (internal.py, lines 583-593) on one row of nine
  columns, the coordinates of the three anchors.
\<close>

definition convert_last_internal :: "real list \<Rightarrow> real \<times> real \<times> real" where
  "convert_last_internal x =
     (let p1 = (x ! 0, x ! 1, x ! 2);
          p2 = (x ! 3, x ! 4, x ! 5);
          p3 = (x ! 6, x ! 7, x ! 8);
          p21 = vsub p2 p1;
          p31 = vsub p3 p1;
          b1 = vnorm p21;
          b2 = vnorm p31;
          cos_angle = vdot p21 p31 / b1 / b2;
          angle = arccos cos_angle
      in (b1, b2, angle))"

text \<open>
  The scalar statistics of the anchor frame (internal.py, lines 505-515):
  \<^verbatim>\<open>torch.std\<close> for more than one sample, else the default.
\<close>

definition scalar_std :: "real list \<Rightarrow> real \<Rightarrow> real" where
  "scalar_std xs dflt = (if length xs > 1 then torch_std xs else 1 * dflt)"

text \<open>
  \<^verbatim>\<open>CompleteInternalCoordinateTransform.__init__\<close> (internal.py, lines 463-517): the
  assertion on the number of anchors comes first, then the construction of the inner
  transform, then the permutation vectors and the statistics of the anchor frame. The
  dataset is a tensor once the inner transform has been built.
\<close>

definition construct_complete :: "nat \<Rightarrow> (nat \<times> nat list) list \<Rightarrow> nat list \<Rightarrow> tensor option
    \<Rightarrow> nat list \<Rightarrow> bool \<Rightarrow> nat \<Rightarrow> default_std \<Rightarrow> (error + cict) option" where
  "construct_complete n_dim_arg z_mat cartesian_indices data ind_circ_dih shift_dih hist_bins dstd =
     (if length cartesian_indices \<noteq> 3 then Some (Inl AssertionError)
      else
       (case construct_ict n_dim_arg z_mat cartesian_indices data ind_circ_dih shift_dih
               hist_bins dstd of
          None \<Rightarrow> None
        | Some r \<Rightarrow>
           (case r of
              Inl e \<Rightarrow> Some (Inl e)
            | Inr ic \<Rightarrow>
               (case fill_permute 0 (cartesian_indices @ map fst z_mat)
                       (replicate n_dim_arg 0) (replicate n_dim_arg 0) of
                  Inl e \<Rightarrow> Some (Inl e)
                | Inr (p, pinv) \<Rightarrow>
                   (let d = map (\<lambda>row. gather row p) (rows (the data));
                        conv = map (\<lambda>row. convert_last_internal
                                       (take (3 * length cartesian_indices) row)) d;
                        b1 = map fst conv;
                        b2 = map (\<lambda>r. fst (snd r)) conv;
                        angle = map (\<lambda>r. snd (snd r)) conv;
                        s_b1 = scalar_std b1 (default_bond dstd);
                        s_b2 = scalar_std b2 (default_bond dstd);
                        s_angle = scalar_std angle (default_angle dstd)
                    in Some (Inr \<lparr>n_dim = n_dim_arg,
                                  len_cart_inds = length cartesian_indices,
                                  ic_transform = ic,
                                  permute = p, permute_inv = pinv,
                                  mean_b1 = torch_mean b1, mean_b2 = torch_mean b2,
                                  mean_angle = torch_mean angle,
                                  std_b1 = s_b1, std_b2 = s_b2, std_angle = s_angle,
                                  scale_jac_complete = - (ln s_b1 + ln s_b2 + ln s_angle)\<rparr>))))))"




section \<open>The forward map, column by column\<close>

text \<open>
  The position of an atom in a flattened row, and the bond, angle and dihedral that
  \<^verbatim>\<open>_fwd\<close> computes for a z-matrix row \<open>(atom, ref1, ref2, ref3)\<close>.
\<close>

definition pos :: "real list \<Rightarrow> nat \<Rightarrow> vec3" where
  "pos x a = (x ! (3 * a), x ! (3 * a + 1), x ! (3 * a + 2))"

definition bond_q :: "real list \<Rightarrow> quad \<Rightarrow> real" where
  "bond_q x q = (case q of (a, r1, r2, r3) \<Rightarrow> bond_of (pos x r1) (pos x a))"

definition angle_q :: "real list \<Rightarrow> quad \<Rightarrow> real" where
  "angle_q x q = (case q of (a, r1, r2, r3) \<Rightarrow> angle_of (pos x r2) (pos x r1) (pos x a))"

definition dih_q :: "real list \<Rightarrow> quad \<Rightarrow> real" where
  "dih_q x q = (case q of (a, r1, r2, r3) \<Rightarrow>
                  dihedral_of (pos x r3) (pos x r2) (pos x r1) (pos x a))"

lemma gather3_inds: "a < n \<Longrightarrow> gather3 x (make_inds_for_atom n ! a) = pos x a"
  by (simp add: make_inds_for_atom_def pos_def)

lemma fwd_row_eq:
  assumes inds: "inds_for_atom ixs = make_inds_for_atom n"
    and lt: "\<forall>q\<in>set (rev_z_indices ixs). \<forall>a\<in>quad_atoms q. a < n"
  shows "fwd_row ixs x =
     (scatter (scatter (scatter x (map (\<lambda>q. 3 * fst q) (rev_z_indices ixs))
                                  (map (bond_q x) (rev_z_indices ixs)))
                       (map (\<lambda>q. 3 * fst q + 1) (rev_z_indices ixs))
                       (map (angle_q x) (rev_z_indices ixs)))
              (map (\<lambda>q. 3 * fst q + 2) (rev_z_indices ixs))
              (map (dih_q x) (rev_z_indices ixs)),
      - (\<Sum>q\<leftarrow>rev_z_indices ixs. 2 * ln (bond_q x q) + ln \<bar>sin (angle_q x q)\<bar>))"
proof -
  let ?rz = "rev_z_indices ixs"
  have g: "gather3 x (inds_for_atom ixs ! a) = pos x a" if "a < n" for a
    unfolding inds using that by (rule gather3_inds)
  have at: "fst q < n" "fst (snd q) < n" "fst (snd (snd q)) < n" "snd (snd (snd q)) < n"
    if "q \<in> set ?rz" for q
    using lt that by (cases q; auto simp: quad_atoms_def)+
  have b: "calc_bonds (map (\<lambda>q. inds_for_atom ixs ! fst (snd q)) ?rz)
             (map (\<lambda>q. inds_for_atom ixs ! fst q) ?rz) x = map (bond_q x) ?rz"
    unfolding calc_bonds_def
    by (rule nth_equalityI) (auto simp: g at bond_q_def split: prod.splits)
  have a: "calc_angles (map (\<lambda>q. inds_for_atom ixs ! fst (snd (snd q))) ?rz)
             (map (\<lambda>q. inds_for_atom ixs ! fst (snd q)) ?rz)
             (map (\<lambda>q. inds_for_atom ixs ! fst q) ?rz) x = map (angle_q x) ?rz"
    unfolding calc_angles_def
    by (rule nth_equalityI) (auto simp: g at angle_q_def split: prod.splits)
  have d: "calc_dihedrals (map (\<lambda>q. inds_for_atom ixs ! snd (snd (snd q))) ?rz)
             (map (\<lambda>q. inds_for_atom ixs ! fst (snd (snd q))) ?rz)
             (map (\<lambda>q. inds_for_atom ixs ! fst (snd q)) ?rz)
             (map (\<lambda>q. inds_for_atom ixs ! fst q) ?rz) x = map (dih_q x) ?rz"
    unfolding calc_dihedrals_def
    by (rule nth_equalityI) (auto simp: g at dih_q_def split: prod.splits)
  have i4: "map fst (map (\<lambda>q. inds_for_atom ixs ! fst q) ?rz) = map (\<lambda>q. 3 * fst q) ?rz"
    "map (\<lambda>i. fst (snd i)) (map (\<lambda>q. inds_for_atom ixs ! fst q) ?rz) = map (\<lambda>q. 3 * fst q + 1) ?rz"
    "map (\<lambda>i. snd (snd i)) (map (\<lambda>q. inds_for_atom ixs ! fst q) ?rz) = map (\<lambda>q. 3 * fst q + 2) ?rz"
    unfolding inds using at(1) by (auto simp: make_inds_for_atom_def)
  have j: "sum_list (map2 (\<lambda>b a. 2 * ln b + ln \<bar>sin a\<bar>) (map (bond_q x) ?rz) (map (angle_q x) ?rz))
      = (\<Sum>q\<leftarrow>?rz. 2 * ln (bond_q x q) + ln \<bar>sin (angle_q x q)\<bar>)"
    by (simp add: zip_map_map zip_same_conv_map comp_def)
  show ?thesis unfolding fwd_row_def Let_def b a d i4 j ..
qed

lemma scatter_map_nth:
  assumes "distinct (map f qs)" "q \<in> set qs" "f q < length x"
  shows "scatter x (map f qs) (map g qs) ! f q = g q"
proof -
  from assms(2) obtain k where k: "k < length qs" "qs ! k = q" by (auto simp: in_set_conv_nth)
  have "scatter x (map f qs) (map g qs) ! (map f qs ! k) = map g qs ! k"
    by (rule scatter_nth) (use assms k in simp_all)
  then show ?thesis using k by simp
qed

text \<open>
  The facts about the buffers of a transform that the constructor establishes: \<open>n\<close> is
  the number of atoms.
\<close>

definition ict_wf :: "nat \<Rightarrow> ict \<Rightarrow> bool" where
  "ict_wf n t =
     (inds_for_atom (ix t) = make_inds_for_atom n
      \<and> (\<forall>q\<in>set (sorted_z_indices (ix t)). fst q < n)
      \<and> distinct (map fst (sorted_z_indices (ix t)))
      \<and> rev_z_indices (ix t) = rev (sorted_z_indices (ix t))
      \<and> bond_indices (ix t) = map (\<lambda>q. 3 * fst q) (sorted_z_indices (ix t))
      \<and> angle_indices (ix t) = map (\<lambda>q. 3 * fst q + 1) (sorted_z_indices (ix t))
      \<and> dih_indices (ix t) = map (\<lambda>q. 3 * fst q + 2) (sorted_z_indices (ix t))
      \<and> length (atom_to_stats (ix t)) = n
      \<and> (\<forall>k<length (sorted_z_indices (ix t)).
            atom_to_stats (ix t) ! fst (sorted_z_indices (ix t) ! k) = k)
      \<and> length (mean_bonds t) = length (sorted_z_indices (ix t))
      \<and> length (std_bonds t) = length (sorted_z_indices (ix t))
      \<and> length (mean_angles t) = length (sorted_z_indices (ix t))
      \<and> length (std_angles t) = length (sorted_z_indices (ix t))
      \<and> length (mean_dih t) = length (sorted_z_indices (ix t))
      \<and> length (std_dih t) = length (sorted_z_indices (ix t))
      \<and> scale_jac t = - (sum_list (map ln (std_bonds t)) + sum_list (map ln (std_angles t))
                          + sum_list (map ln (std_dih t))))"

lemma ict_wfD:
  assumes "ict_wf n t"
  shows "inds_for_atom (ix t) = make_inds_for_atom n"
    and "\<forall>q\<in>set (sorted_z_indices (ix t)). fst q < n"
    and "distinct (map fst (sorted_z_indices (ix t)))"
    and "rev_z_indices (ix t) = rev (sorted_z_indices (ix t))"
    and "bond_indices (ix t) = map (\<lambda>q. 3 * fst q) (sorted_z_indices (ix t))"
    and "angle_indices (ix t) = map (\<lambda>q. 3 * fst q + 1) (sorted_z_indices (ix t))"
    and "dih_indices (ix t) = map (\<lambda>q. 3 * fst q + 2) (sorted_z_indices (ix t))"
    and "length (atom_to_stats (ix t)) = n"
    and "\<forall>k<length (sorted_z_indices (ix t)).
            atom_to_stats (ix t) ! fst (sorted_z_indices (ix t) ! k) = k"
    and "length (mean_bonds t) = length (sorted_z_indices (ix t))"
    and "length (std_bonds t) = length (sorted_z_indices (ix t))"
    and "length (mean_angles t) = length (sorted_z_indices (ix t))"
    and "length (std_angles t) = length (sorted_z_indices (ix t))"
    and "length (mean_dih t) = length (sorted_z_indices (ix t))"
    and "length (std_dih t) = length (sorted_z_indices (ix t))"
    and "scale_jac t = - (sum_list (map ln (std_bonds t)) + sum_list (map ln (std_angles t))
                          + sum_list (map ln (std_dih t)))"
  using assms unfolding ict_wf_def by - (elim conjE, assumption)+

lemma construct_ict_wf:
  assumes "construct_ict d z cart data icd shift bins dstd = Some (Inr t)"
  shows "ict_wf (d div 3) t" and "setup_indices d z cart = Some (Inr (ix t))"
    and "fwd_index_ok (ix t) d" and "dims t = d"
proof -
  from construct_ictD[OF assms] obtain ixs rs where
    s: "setup_indices d z cart = Some (Inr ixs)"
    and f: "fit_statistics d ixs rs icd shift bins dstd = Inr t" by blast
  note F = fit_statisticsD[OF f]
  note B = setup_indices_buffers[OF s]
  show "setup_indices d z cart = Some (Inr (ix t))" using s F(1) by simp
  show "fwd_index_ok (ix t) d" using F(1,3) by simp
  show "dims t = d" by (rule F(2))
  have l: "length (bond_indices ixs) = length (sorted_z_indices ixs)"
    "length (angle_indices ixs) = length (sorted_z_indices ixs)"
    "length (dih_indices ixs) = length (sorted_z_indices ixs)"
    unfolding B(6,7,8) by simp_all
  show "ict_wf (d div 3) t"
    unfolding ict_wf_def F(1)
    by (intro conjI) (use B F l in simp_all)
qed

lemma zcols_distinct:
  fixes sz :: "quad list"
  assumes "distinct (map fst sz)"
  shows "distinct (map (\<lambda>q. 3 * fst q) sz)" and "distinct (map (\<lambda>q. 3 * fst q + 1) sz)"
    and "distinct (map (\<lambda>q. 3 * fst q + 2) sz)"
proof -
  have i: "inj_on fst (set sz)" using assms by (simp add: distinct_map)
  have "inj_on (\<lambda>q. 3 * fst q) (set sz)" "inj_on (\<lambda>q. 3 * fst q + 1) (set sz)"
    "inj_on (\<lambda>q. 3 * fst q + 2) (set sz)"
    using i by (auto simp: inj_on_def)
  moreover have "distinct sz" using assms by (simp add: distinct_map)
  ultimately show "distinct (map (\<lambda>q. 3 * fst q) sz)" and "distinct (map (\<lambda>q. 3 * fst q + 1) sz)"
    and "distinct (map (\<lambda>q. 3 * fst q + 2) sz)"
    by (simp_all add: distinct_map)
qed

lemma zcols_notin:
  fixes sz :: "quad list"
  shows "3 * a \<notin> set (map (\<lambda>q. 3 * fst q + 1) sz)" "3 * a \<notin> set (map (\<lambda>q. 3 * fst q + 2) sz)"
  "3 * a + 1 \<notin> set (map (\<lambda>q. 3 * fst q) sz)" "3 * a + 1 \<notin> set (map (\<lambda>q. 3 * fst q + 2) sz)"
  "3 * a + 2 \<notin> set (map (\<lambda>q. 3 * fst q) sz)" "3 * a + 2 \<notin> set (map (\<lambda>q. 3 * fst q + 1) sz)"
proof -
  have "3 * a \<noteq> 3 * b + 1" "3 * a \<noteq> 3 * b + 2" "3 * a + 1 \<noteq> 3 * b" "3 * a + 1 \<noteq> 3 * b + 2"
    "3 * a + 2 \<noteq> 3 * b" "3 * a + 2 \<noteq> 3 * b + 1" for b :: nat
    by presburger+
  then show "3 * a \<notin> set (map (\<lambda>q. 3 * fst q + 1) sz)" "3 * a \<notin> set (map (\<lambda>q. 3 * fst q + 2) sz)"
  "3 * a + 1 \<notin> set (map (\<lambda>q. 3 * fst q) sz)" "3 * a + 1 \<notin> set (map (\<lambda>q. 3 * fst q + 2) sz)"
  "3 * a + 2 \<notin> set (map (\<lambda>q. 3 * fst q) sz)" "3 * a + 2 \<notin> set (map (\<lambda>q. 3 * fst q + 1) sz)"
    by auto
qed

lemma zcols_other:
  fixes sz :: "quad list"
  assumes "j div 3 \<notin> fst ` set sz"
  shows "j \<notin> set (map (\<lambda>q. 3 * fst q) sz)" "j \<notin> set (map (\<lambda>q. 3 * fst q + 1) sz)"
    "j \<notin> set (map (\<lambda>q. 3 * fst q + 2) sz)"
  using assms by (auto simp: image_iff)

lemma fwd_index_okD:
  assumes "fwd_index_ok ixs ncols" and "inds_for_atom ixs = make_inds_for_atom n"
  shows "rev_z_indices ixs \<noteq> []"
    and "\<forall>q\<in>set (rev_z_indices ixs). \<forall>a\<in>quad_atoms q. a < n \<and> 3 * a + 2 < ncols"
proof -
  show "rev_z_indices ixs \<noteq> []" using assms(1) unfolding fwd_index_ok_def by simp
  show "\<forall>q\<in>set (rev_z_indices ixs). \<forall>a\<in>quad_atoms q. a < n \<and> 3 * a + 2 < ncols"
  proof (intro ballI)
    fix q a assume q: "q \<in> set (rev_z_indices ixs)" and a: "a \<in> quad_atoms q"
    from assms(1) q a have 1: "a < length (inds_for_atom ixs)"
      and 2: "\<forall>c\<in>set (flat3 (inds_for_atom ixs ! a)). c < ncols"
      unfolding fwd_index_ok_def by blast+
    from 1 have an: "a < n" unfolding assms(2) by (simp add: make_inds_for_atom_def)
    then have "flat3 (inds_for_atom ixs ! a) = [3 * a, 3 * a + 1, 3 * a + 2]"
      unfolding assms(2) by (simp add: make_inds_for_atom_def flat3_def)
    with 2 have "3 * a + 2 < ncols" by simp
    with an show "a < n \<and> 3 * a + 2 < ncols" by simp
  qed
qed

text \<open>The row that \<^verbatim>\<open>_fwd\<close> returns, column by column.\<close>

lemma fwd_row_char:
  assumes wf: "ict_wf n t" and ok: "fwd_index_ok (ix t) (length x)"
  shows "length (fst (fwd_row (ix t) x)) = length x"
    and "snd (fwd_row (ix t) x)
          = - (\<Sum>q\<leftarrow>rev (sorted_z_indices (ix t)). 2 * ln (bond_q x q) + ln \<bar>sin (angle_q x q)\<bar>)"
    and "q \<in> set (sorted_z_indices (ix t)) \<Longrightarrow>
           fst (fwd_row (ix t) x) ! (3 * fst q) = bond_q x q
           \<and> fst (fwd_row (ix t) x) ! (3 * fst q + 1) = angle_q x q
           \<and> fst (fwd_row (ix t) x) ! (3 * fst q + 2) = dih_q x q"
    and "j div 3 \<notin> fst ` set (sorted_z_indices (ix t)) \<Longrightarrow> fst (fwd_row (ix t) x) ! j = x ! j"
proof -
  note W = ict_wfD[OF wf]
  let ?sz = "sorted_z_indices (ix t)"
  note O = fwd_index_okD[OF ok W(1)]
  have lt: "\<forall>q\<in>set (rev_z_indices (ix t)). \<forall>a\<in>quad_atoms q. a < n" using O(2) by blast
  note E = fwd_row_eq[OF W(1) lt, of x, unfolded W(4)]
  show "length (fst (fwd_row (ix t) x)) = length x" unfolding E by simp
  show "snd (fwd_row (ix t) x)
          = - (\<Sum>q\<leftarrow>rev ?sz. 2 * ln (bond_q x q) + ln \<bar>sin (angle_q x q)\<bar>)"
    unfolding E by simp
  have dr: "distinct (map fst (rev ?sz))" using W(3) by (simp add: rev_map[symmetric])
  note D = zcols_distinct[OF dr]
  show "fst (fwd_row (ix t) x) ! (3 * fst q) = bond_q x q
           \<and> fst (fwd_row (ix t) x) ! (3 * fst q + 1) = angle_q x q
           \<and> fst (fwd_row (ix t) x) ! (3 * fst q + 2) = dih_q x q"
    if q: "q \<in> set ?sz"
  proof -
    have qr: "q \<in> set (rev ?sz)" using q by simp
    have "fst q \<in> quad_atoms q" by (cases q) (simp add: quad_atoms_def)
    with O(2) q W(4) have c: "3 * fst q + 2 < length x" by auto
    have 1: "fst (fwd_row (ix t) x) ! (3 * fst q) = bond_q x q"
      unfolding E fst_conv
      by (simp only: scatter_other[OF zcols_notin(2)] scatter_other[OF zcols_notin(1)])
         (rule scatter_map_nth[OF D(1) qr], use c in simp)
    have 2: "fst (fwd_row (ix t) x) ! (3 * fst q + 1) = angle_q x q"
      unfolding E fst_conv
      by (simp only: scatter_other[OF zcols_notin(4)])
         (rule scatter_map_nth[OF D(2) qr], use c in simp)
    have 3: "fst (fwd_row (ix t) x) ! (3 * fst q + 2) = dih_q x q"
      unfolding E fst_conv
      by (rule scatter_map_nth[OF D(3) qr], use c in simp)
    show ?thesis using 1 2 3 by blast
  qed
  show "fst (fwd_row (ix t) x) ! j = x ! j" if j: "j div 3 \<notin> fst ` set ?sz"
  proof -
    have "j div 3 \<notin> fst ` set (rev ?sz)" using j by simp
    note Z = zcols_other[OF this]
    show ?thesis unfolding E fst_conv
      by (simp only: scatter_other[OF Z(3)] scatter_other[OF Z(2)] scatter_other[OF Z(1)])
  qed
qed

text \<open>The row and the log Jacobian that \<^verbatim>\<open>forward\<close> returns.\<close>

lemma forward_char:
  assumes wf: "ict_wf n t" and ok: "fwd_index_ok (ix t) (length x)"
  shows "\<exists>z. forward t x
            = Inr (z, - (\<Sum>q\<leftarrow>rev (sorted_z_indices (ix t)).
                            2 * ln (bond_q x q) + ln \<bar>sin (angle_q x q)\<bar>) + scale_jac t)
          \<and> length z = length x
          \<and> (\<forall>k<length (sorted_z_indices (ix t)).
                z ! (3 * fst (sorted_z_indices (ix t) ! k))
                  = (bond_q x (sorted_z_indices (ix t) ! k) - mean_bonds t ! k) / std_bonds t ! k
              \<and> z ! (3 * fst (sorted_z_indices (ix t) ! k) + 1)
                  = (angle_q x (sorted_z_indices (ix t) ! k) - mean_angles t ! k) / std_angles t ! k
              \<and> z ! (3 * fst (sorted_z_indices (ix t) ! k) + 2)
                  = fix_dih_val (dih_q x (sorted_z_indices (ix t) ! k) - mean_dih t ! k)
                      / std_dih t ! k)
          \<and> (\<forall>j. j div 3 \<notin> fst ` set (sorted_z_indices (ix t)) \<longrightarrow> z ! j = x ! j)"
proof -
  note W = ict_wfD[OF wf]
  let ?sz = "sorted_z_indices (ix t)"
  let ?B = "map (\<lambda>q. 3 * fst q) ?sz"
  let ?A = "map (\<lambda>q. 3 * fst q + 1) ?sz"
  let ?D = "map (\<lambda>q. 3 * fst q + 2) ?sz"
  define X1 where "X1 = fst (fwd_row (ix t) x)"
  define X2 where "X2 = sub_at X1 ?B (mean_bonds t)"
  define X3 where "X3 = div_at X2 ?B (std_bonds t)"
  define X4 where "X4 = sub_at X3 ?A (mean_angles t)"
  define X5 where "X5 = div_at X4 ?A (std_angles t)"
  define X6 where "X6 = sub_at X5 ?D (mean_dih t)"
  define X7 where "X7 = fix_dih ?D X6"
  define X8 where "X8 = div_at X7 ?D (std_dih t)"
  note C = fwd_row_char[OF wf ok]
  have f: "forward t x = Inr (X8, snd (fwd_row (ix t) x) + scale_jac t)"
    unfolding forward_def fwd_def Let_def W(5,6,7) X8_def X7_def X6_def X5_def X4_def X3_def
      X2_def X1_def using ok by (simp add: case_prod_beta)
  have len: "length X1 = length x" "length X2 = length x" "length X3 = length x"
    "length X4 = length x" "length X5 = length x" "length X6 = length x" "length X7 = length x"
    "length X8 = length x"
    unfolding X8_def X7_def X6_def X5_def X4_def X3_def X2_def
    using C(1) by (simp_all add: X1_def)
  note Dz = zcols_distinct[OF W(3)]
  note O = fwd_index_okD[OF ok W(1)]
  have cols: "\<forall>k<length ?sz.
                X8 ! (3 * fst (?sz ! k)) = (bond_q x (?sz ! k) - mean_bonds t ! k) / std_bonds t ! k
              \<and> X8 ! (3 * fst (?sz ! k) + 1)
                  = (angle_q x (?sz ! k) - mean_angles t ! k) / std_angles t ! k
              \<and> X8 ! (3 * fst (?sz ! k) + 2)
                  = fix_dih_val (dih_q x (?sz ! k) - mean_dih t ! k) / std_dih t ! k"
  proof (intro allI impI)
    fix k assume k: "k < length ?sz"
    let ?q = "?sz ! k"
    have q: "?q \<in> set ?sz" using k by simp
    have "fst ?q \<in> quad_atoms ?q" by (cases ?q) (simp add: quad_atoms_def)
    with O(2) q W(4) have c: "3 * fst ?q + 2 < length x" by auto
    have ib: "?B ! k = 3 * fst ?q" "?A ! k = 3 * fst ?q + 1" "?D ! k = 3 * fst ?q + 2"
      using k by simp_all
    have kb: "k < length ?B" "k < length ?A" "k < length ?D" using k by simp_all
    note Q = C(3)[OF q]
    have b2: "X2 ! (3 * fst ?q) = bond_q x ?q - mean_bonds t ! k"
      unfolding X2_def using sub_at_nth[OF Dz(1) _ kb(1), of "mean_bonds t" X1] W(10) c len(1) Q
      unfolding ib X1_def by simp
    have b3: "X3 ! (3 * fst ?q) = (bond_q x ?q - mean_bonds t ! k) / std_bonds t ! k"
      unfolding X3_def using div_at_nth[OF Dz(1) _ kb(1), of "std_bonds t" X2] W(11) c len(2) b2
      unfolding ib by simp
    have b8: "X8 ! (3 * fst ?q) = X3 ! (3 * fst ?q)"
      unfolding X8_def X7_def X6_def X5_def X4_def
      by (simp only: div_at_other[OF zcols_notin(2)] fix_dih_other[OF zcols_notin(2)]
          sub_at_other[OF zcols_notin(2)] div_at_other[OF zcols_notin(1)]
          sub_at_other[OF zcols_notin(1)])
    have a3: "X3 ! (3 * fst ?q + 1) = angle_q x ?q"
      unfolding X3_def X2_def
      using Q by (simp only: div_at_other[OF zcols_notin(3)] sub_at_other[OF zcols_notin(3)] X1_def)
    have a4: "X4 ! (3 * fst ?q + 1) = angle_q x ?q - mean_angles t ! k"
      unfolding X4_def using sub_at_nth[OF Dz(2) _ kb(2), of "mean_angles t" X3] W(12) c len(3) a3
      unfolding ib by simp
    have a5: "X5 ! (3 * fst ?q + 1) = (angle_q x ?q - mean_angles t ! k) / std_angles t ! k"
      unfolding X5_def using div_at_nth[OF Dz(2) _ kb(2), of "std_angles t" X4] W(13) c len(4) a4
      unfolding ib by simp
    have a8: "X8 ! (3 * fst ?q + 1) = X5 ! (3 * fst ?q + 1)"
      unfolding X8_def X7_def X6_def
      by (simp only: div_at_other[OF zcols_notin(4)] fix_dih_other[OF zcols_notin(4)]
          sub_at_other[OF zcols_notin(4)])
    have d5: "X5 ! (3 * fst ?q + 2) = dih_q x ?q"
      unfolding X5_def X4_def X3_def X2_def
      using Q by (simp only: div_at_other[OF zcols_notin(6)] sub_at_other[OF zcols_notin(6)]
          div_at_other[OF zcols_notin(5)] sub_at_other[OF zcols_notin(5)] X1_def)
    have d6: "X6 ! (3 * fst ?q + 2) = dih_q x ?q - mean_dih t ! k"
      unfolding X6_def using sub_at_nth[OF Dz(3) _ kb(3), of "mean_dih t" X5] W(14) c len(5) d5
      unfolding ib by simp
    have d7: "X7 ! (3 * fst ?q + 2) = fix_dih_val (dih_q x ?q - mean_dih t ! k)"
      unfolding X7_def using fix_dih_nth[OF Dz(3) kb(3), of X6] c len(6) d6
      unfolding ib by simp
    have d8: "X8 ! (3 * fst ?q + 2) = fix_dih_val (dih_q x ?q - mean_dih t ! k) / std_dih t ! k"
      unfolding X8_def using div_at_nth[OF Dz(3) _ kb(3), of "std_dih t" X7] W(15) c len(7) d7
      unfolding ib by simp
    show "X8 ! (3 * fst ?q) = (bond_q x ?q - mean_bonds t ! k) / std_bonds t ! k
              \<and> X8 ! (3 * fst ?q + 1) = (angle_q x ?q - mean_angles t ! k) / std_angles t ! k
              \<and> X8 ! (3 * fst ?q + 2)
                  = fix_dih_val (dih_q x ?q - mean_dih t ! k) / std_dih t ! k"
      using b8 b3 a8 a5 d8 by simp
  qed
  have oth: "\<forall>j. j div 3 \<notin> fst ` set ?sz \<longrightarrow> X8 ! j = x ! j"
  proof (intro allI impI)
    fix j assume j: "j div 3 \<notin> fst ` set ?sz"
    note Z = zcols_other[OF j]
    have "X8 ! j = X1 ! j"
      unfolding X8_def X7_def X6_def X5_def X4_def X3_def X2_def
      by (simp only: div_at_other[OF Z(3)] fix_dih_other[OF Z(3)] sub_at_other[OF Z(3)]
          div_at_other[OF Z(2)] sub_at_other[OF Z(2)] div_at_other[OF Z(1)] sub_at_other[OF Z(1)])
    then show "X8 ! j = x ! j" using C(4)[OF j] unfolding X1_def by simp
  qed
  show ?thesis
    using f len(8) cols oth unfolding C(2) by blast
qed

text \<open>
  \<^verbatim>\<open>_fwd\<close> and \<^verbatim>\<open>forward\<close> once more, now on a store of tensors, to see what
  they do to the tensor of the caller. The store is the list of the rows allocated so
  far, and a tensor is named by its position. \<^verbatim>\<open>x = x.clone()\<close> allocates a new
  tensor with the contents of the argument and rebinds the name \<^verbatim>\<open>x\<close>; the index
  assignments and the in-place \<^verbatim>\<open>-=\<close> and \<^verbatim>\<open>/=\<close> overwrite the tensor they are
  applied to.
\<close>

definition fwd_store :: "indices \<Rightarrow> nat \<Rightarrow> real list list \<Rightarrow> error + nat \<times> real \<times> real list list" where
  "fwd_store ixs a s =
     (let x = length s;
          s = s @ [s ! a]
      in if \<not> fwd_index_ok ixs (length (s ! x)) then Inl IndexError
         else
          (let inds1 = map (\<lambda>q. inds_for_atom ixs ! fst (snd q)) (rev_z_indices ixs);
               inds2 = map (\<lambda>q. inds_for_atom ixs ! fst (snd (snd q))) (rev_z_indices ixs);
               inds3 = map (\<lambda>q. inds_for_atom ixs ! snd (snd (snd q))) (rev_z_indices ixs);
               inds4 = map (\<lambda>q. inds_for_atom ixs ! fst q) (rev_z_indices ixs);
               bonds = calc_bonds inds1 inds4 (s ! x);
               angles = calc_angles inds2 inds1 inds4 (s ! x);
               dihedrals = calc_dihedrals inds3 inds2 inds1 inds4 (s ! x);
               jac = - sum_list (map2 (\<lambda>b a. 2 * ln b + ln \<bar>sin a\<bar>) bonds angles);
               s = s[x := scatter (s ! x) (map fst inds4) bonds];
               s = s[x := scatter (s ! x) (map (\<lambda>i. fst (snd i)) inds4) angles];
               s = s[x := scatter (s ! x) (map (\<lambda>i. snd (snd i)) inds4) dihedrals]
           in Inr (x, jac, s)))"

definition forward_store :: "ict \<Rightarrow> nat \<Rightarrow> real list list \<Rightarrow> error + nat \<times> real \<times> real list list" where
  "forward_store t a s =
     (case fwd_store (ix t) a s of
        Inl e \<Rightarrow> Inl e
      | Inr (trans_x, jac, s) \<Rightarrow>
         (let s = s[trans_x := sub_at (s ! trans_x) (bond_indices (ix t)) (mean_bonds t)];
              s = s[trans_x := div_at (s ! trans_x) (bond_indices (ix t)) (std_bonds t)];
              s = s[trans_x := sub_at (s ! trans_x) (angle_indices (ix t)) (mean_angles t)];
              s = s[trans_x := div_at (s ! trans_x) (angle_indices (ix t)) (std_angles t)];
              s = s[trans_x := sub_at (s ! trans_x) (dih_indices (ix t)) (mean_dih t)];
              s = s[trans_x := fix_dih (dih_indices (ix t)) (s ! trans_x)];
              s = s[trans_x := div_at (s ! trans_x) (dih_indices (ix t)) (std_dih t)]
          in Inr (trans_x, jac + scale_jac t, s)))"

lemma fwd_store_eq:
  assumes "a < length s"
  shows "fwd_store ixs a s =
     (if fwd_index_ok ixs (length (s ! a))
      then Inr (length s, snd (fwd_row ixs (s ! a)), s @ [fst (fwd_row ixs (s ! a))])
      else Inl IndexError)"
proof -
  have n: "(s @ [s ! a]) ! length s = s ! a" by simp
  have u: "(s @ [v])[length s := w] = s @ [w]" for v w :: "real list" by simp
  have m: "(s @ [v]) ! length s = v" for v :: "real list" by simp
  show ?thesis
    unfolding fwd_store_def fwd_row_def Let_def n u m by simp
qed

lemma forward_store_eq:
  assumes "a < length s"
  shows "forward_store t a s =
     (case forward t (s ! a) of
        Inl e \<Rightarrow> Inl e
      | Inr (z, jac) \<Rightarrow> Inr (length s, jac, s @ [z]))"
proof -
  have u: "(s @ [v])[length s := w] = s @ [w]" for v w :: "real list" by simp
  have m: "(s @ [v]) ! length s = v" for v :: "real list" by simp
  show ?thesis
    unfolding forward_store_def forward_def fwd_store_eq[OF assms] fwd_def Let_def
    by (simp add: u m case_prod_beta)
qed

lemma forward_store_frame:
  assumes c: "construct_ict d z_indices cart_indices data icd shift bins dstd = Some (Inr t)"
    and a: "a < length s" and f: "forward_store t a s = Inr (b, jac, s')"
  shows "take (length s) s' = s \<and> s' ! a = s ! a
       \<and> forward t (s ! a) = Inr (s' ! b, jac)
       \<and> length (s' ! b) = length (s ! a)
       \<and> (\<forall>j. j div 3 \<notin> fst ` set z_indices \<longrightarrow> s' ! b ! j = s ! a ! j)
       \<and> (fst ` set z_indices \<inter> set cart_indices = {} \<longrightarrow>
            (\<forall>c\<in>set cart_indices. s' ! b ! (3 * c) = s ! a ! (3 * c)
                \<and> s' ! b ! (3 * c + 1) = s ! a ! (3 * c + 1)
                \<and> s' ! b ! (3 * c + 2) = s ! a ! (3 * c + 2)))"
proof -
  note W = construct_ict_wf[OF c]
  from f obtain z where fw: "forward t (s ! a) = Inr (z, jac)" and b: "b = length s"
    and s': "s' = s @ [z]"
    unfolding forward_store_eq[OF a] by (auto split: sum.splits)
  have ok: "fwd_index_ok (ix t) (length (s ! a))"
    using fw unfolding forward_def fwd_def by (auto split: if_splits)
  from forward_char[OF W(1) ok] fw have len: "length z = length (s ! a)"
    and oth: "\<forall>j. j div 3 \<notin> fst ` set (sorted_z_indices (ix t)) \<longrightarrow> z ! j = s ! a ! j"
    by auto
  have keys: "fst ` set (sorted_z_indices (ix t)) = fst ` set z_indices"
    by (rule setup_indices_buffers(4)[OF W(2)])
  have 1: "take (length s) s' = s" "s' ! a = s ! a" "s' ! b = z"
    unfolding s' b using a by (simp_all add: nth_append)
  have 2: "\<forall>j. j div 3 \<notin> fst ` set z_indices \<longrightarrow> s' ! b ! j = s ! a ! j"
    using oth unfolding keys 1(3) .
  have 3: "fst ` set z_indices \<inter> set cart_indices = {} \<longrightarrow>
            (\<forall>c\<in>set cart_indices. s' ! b ! (3 * c) = s ! a ! (3 * c)
                \<and> s' ! b ! (3 * c + 1) = s ! a ! (3 * c + 1)
                \<and> s' ! b ! (3 * c + 2) = s ! a ! (3 * c + 2))"
  proof (intro impI ballI)
    fix c assume dj: "fst ` set z_indices \<inter> set cart_indices = {}" and c: "c \<in> set cart_indices"
    then have n: "c \<notin> fst ` set z_indices" by blast
    have "(3 * c) div 3 = c" "(3 * c + 1) div 3 = c" "(3 * c + 2) div 3 = c" by simp_all
    with n 2 show "s' ! b ! (3 * c) = s ! a ! (3 * c)
                \<and> s' ! b ! (3 * c + 1) = s ! a ! (3 * c + 1)
                \<and> s' ! b ! (3 * c + 2) = s ! a ! (3 * c + 2)" by metis
  qed
  show ?thesis using 1 fw len 2 3 by simp
qed

text \<open>
  C10: \<^verbatim>\<open>forward\<close> leaves every tensor of the store as it was, the argument
  included, and returns a new tensor; in it every column that does not belong to a
  z-matrix atom, and so the nine columns of three anchors that are not z-matrix atoms,
  holds what the same column of the argument holds.
\<close>

theorem forward_frame:
  assumes "construct_ict d z_indices cart_indices data icd shift bins dstd = Some (Inr t)"
    and "a < length s" and "forward_store t a s = Inr (b, jac, s')"
  shows "take (length s) s' = s \<and> s' ! a = s ! a
       \<and> forward t (s ! a) = Inr (s' ! b, jac)
       \<and> length (s' ! b) = length (s ! a)
       \<and> (\<forall>j. j div 3 \<notin> fst ` set z_indices \<longrightarrow> s' ! b ! j = s ! a ! j)
       \<and> (fst ` set z_indices \<inter> set cart_indices = {} \<longrightarrow>
            (\<forall>c\<in>set cart_indices. s' ! b ! (3 * c) = s ! a ! (3 * c)
                \<and> s' ! b ! (3 * c + 1) = s ! a ! (3 * c + 1)
                \<and> s' ! b ! (3 * c + 2) = s ! a ! (3 * c + 2)))"
  using assms by (rule forward_store_frame)

theorem forward_frame_witness:
  "\<exists>t b jac s'.
     construct_ict 12 [(3, [2, 1, 0])] [0, 1, 2]
         (Some (Tensor [1, 12] [[0, 0, 0, 1, 0, 0, 0, 1, 0, 1, 1, 1]])) [] False 100
         \<lparr>default_bond = 5 / 1000, default_angle = 15 / 100, default_dih = 2 / 10\<rparr> = Some (Inr t)
     \<and> 0 < length [[0, 0, 0, 1, 0, 0, 0, 1, 0, 1, 1, 1 :: real]]
     \<and> forward_store t 0 [[0, 0, 0, 1, 0, 0, 0, 1, 0, 1, 1, 1]] = Inr (b, jac, s')
     \<and> fst ` set [(3::nat, [2::nat, 1, 0])] \<inter> set [0, 1, 2] = {}
     \<and> 7 div 3 \<notin> fst ` set [(3::nat, [2::nat, 1, 0])]
     \<and> s' ! 0 = [0, 0, 0, 1, 0, 0, 0, 1, 0, 1, 1, 1]
     \<and> s' ! b ! 7 = 1"
proof -
  let ?row = "[0, 0, 0, 1, 0, 0, 0, 1, 0, 1, 1, 1 :: real]"
  from example_construct obtain t where
    c: "construct_ict 12 [(3, [2, 1, 0])] [0, 1, 2]
         (Some (Tensor [1, 12] [[0, 0, 0, 1, 0, 0, 0, 1, 0, 1, 1, 1]])) [] False 100
         \<lparr>default_bond = 5 / 1000, default_angle = 15 / 100, default_dih = 2 / 10\<rparr> = Some (Inr t)"
    by blast
  note W = construct_ict_wf[OF c]
  have "length ?row = 12" by simp
  then have ok: "fwd_index_ok (ix t) (length ?row)" using W(3) by (simp only:)
  from forward_char[OF W(1) ok] obtain z jac where fw: "forward t ?row = Inr (z, jac)" by blast
  have a: "0 < length [?row]" by simp
  have fs: "forward_store t 0 [?row] = Inr (length [?row], jac, [?row] @ [z])"
    unfolding forward_store_eq[OF a] using fw by simp
  have h4: "fst ` set [(3::nat, [2::nat, 1, 0])] \<inter> set [0, 1, 2] = {}" by simp
  have h5: "7 div 3 \<notin> fst ` set [(3::nat, [2::nat, 1, 0])]" by simp
  from forward_frame[OF c a fs] h5
  have "([?row] @ [z]) ! 0 = [?row] ! 0"
    and "([?row] @ [z]) ! length [?row] ! 7 = [?row] ! 0 ! 7" by blast+
  then have "([?row] @ [z]) ! 0 = ?row" and "([?row] @ [z]) ! length [?row] ! 7 = 1" by simp_all
  with c a fs h4 h5 show ?thesis by blast
qed

section \<open>The log Jacobian along a round trip\<close>




















section \<open>The anchor frame of the complete transform\<close>






















section \<open>Construction: failures and success\<close>

text \<open>
  One scan of the block loop raises no \<^verbatim>\<open>IndexError\<close> when the buffers have room
  for every row, and the loop ends when the rows are in topological order: the first
  row that is not placed yet has all its references placed, so every round places an
  atom.
\<close>

lemma block_scan_ok:
  assumes "cur + length items \<le> length rp"
    and "\<forall>q\<in>set items. \<forall>a\<in>quad_atoms q. a < length rpi"
  shows "\<exists>r. block_scan ac items (nz, nc, blk, rp, rpi, cur) = Inr r"
  using assms
proof (induction items arbitrary: nz nc blk rp rpi cur)
  case Nil
  then show ?case by simp
next
  case (Cons q items)
  show ?case
  proof (cases "placeable ac q")
    case True
    have c: "\<not> (length rp \<le> cur \<or> (\<exists>a\<in>quad_atoms q. length rpi \<le> a))"
      using Cons.prems by (auto simp: not_le)
    have "cur + 1 + length items \<le> length (rp[cur := fst q])" using Cons.prems(1) by simp
    moreover have "\<forall>q'\<in>set items. \<forall>a\<in>quad_atoms q'. a < length (rpi[fst q := cur])"
      using Cons.prems(2) by simp
    ultimately have "\<exists>r. block_scan ac items
         (nz, insert (fst q) nc, blk @ [q], rp[cur := fst q], rpi[fst q := cur], cur + 1) = Inr r"
      by (rule Cons.IH)
    then show ?thesis unfolding block_scan_place[OF True] using c by simp
  next
    case False
    have "cur + length items \<le> length rp" using Cons.prems(1) by simp
    moreover have "\<forall>q'\<in>set items. \<forall>a\<in>quad_atoms q'. a < length rpi"
      using Cons.prems(2) by simp
    ultimately have "\<exists>r. block_scan ac items (nz @ [q], nc, blk, rp, rpi, cur) = Inr r"
      by (rule Cons.IH)
    then show ?thesis unfolding block_scan_skip[OF False] .
  qed
qed

lemma first_unplaced_placeable:
  fixes SZ :: "quad list"
  assumes sz: "sz = filter (\<lambda>q. fst q \<notin> ac) SZ" and ne: "sz \<noteq> []"
    and cart: "set cart \<subseteq> ac"
    and topo: "\<forall>k<length SZ. quad_refs (SZ ! k) \<subseteq> set cart \<union> fst ` set (take k SZ)"
  shows "placeable ac (hd sz)"
proof -
  from ne obtain q rest where c: "sz = q # rest" by (cases sz) auto
  then have "filter (\<lambda>q. fst q \<notin> ac) SZ = q # rest" using sz by simp
  then obtain us vs where SZ: "SZ = us @ q # vs" and us: "\<forall>u\<in>set us. \<not> fst u \<notin> ac"
    unfolding filter_eq_Cons_iff by blast
  have k: "length us < length SZ" unfolding SZ by simp
  have "SZ ! length us = q" unfolding SZ by simp
  moreover have "take (length us) SZ = us" unfolding SZ by simp
  ultimately have "quad_refs q \<subseteq> set cart \<union> fst ` set us" using topo k by metis
  also have "\<dots> \<subseteq> ac" using cart us by auto
  finally show ?thesis unfolding c placeable_refs by simp
qed

lemma block_loop_total:
  fixes SZ :: "quad list"
  assumes inv: "loop_inv cart c0 SZ rp0 rpi0 sz ac rp rpi cur blocks raw"
    and dS: "distinct (map fst SZ)" and dj: "fst ` set SZ \<inter> set cart = {}"
    and topo: "\<forall>k<length SZ. quad_refs (SZ ! k) \<subseteq> set cart \<union> fst ` set (take k SZ)"
    and brp: "c0 + length SZ \<le> length rp0"
    and brpi: "\<forall>q\<in>set SZ. \<forall>a\<in>quad_atoms q. a < length rpi0"
  shows "\<exists>r. block_loop sz ac rp rpi cur blocks = Some (Inr r)"
  using inv
proof (induction "length sz" arbitrary: sz ac rp rpi cur blocks raw rule: less_induct)
  case less
  note D = loop_invD[OF less.prems]
  show ?case
  proof (cases "sz = []")
    case True
    then show ?thesis by (subst block_loop.simps) simp
  next
    case False
    have "size (mset (concat raw) + mset sz) = size (mset SZ)" using D(4) by simp
    then have ls: "length (concat raw) + length sz = length SZ" by simp
    have b1: "cur + length sz \<le> length rp" using D(3) D(5) ls brp by simp
    have "set sz \<subseteq> set SZ" unfolding D(13) by auto
    then have b2: "\<forall>q\<in>set sz. \<forall>a\<in>quad_atoms q. a < length rpi"
      using brpi D(6) by auto
    from block_scan_ok[OF b1 b2] obtain r where
      "block_scan ac sz ([], {}, [], rp, rpi, cur) = Inr r" by blast
    then obtain nz nc blk rp1 rpi1 cur1 where
      sc: "block_scan ac sz ([], {}, [], rp, rpi, cur) = Inr (nz, nc, blk, rp1, rpi1, cur1)"
      by (cases r) auto
    from loop_inv_step[OF less.prems dS dj sc] have
      inv': "loop_inv cart c0 SZ rp0 rpi0 nz (ac \<union> nc) rp1 rpi1 cur1
           (blocks @ [map (resolve_block rpi1) blk]) (raw @ [blk])"
      and nz: "nz = filter (\<lambda>q. \<not> placeable ac q) sz" by blast+
    have "set cart \<subseteq> ac" unfolding D(2) by simp
    from first_unplaced_placeable[OF D(13) False this topo]
    have "placeable ac (hd sz)" .
    moreover have "hd sz \<in> set sz" using False by simp
    ultimately have "length nz < length sz"
      unfolding nz by (intro length_filter_less[of "hd sz"]) simp_all
    from less.hyps[OF this inv'] obtain r' where
      e: "block_loop nz (ac \<union> nc) rp1 rpi1 cur1 (blocks @ [map (resolve_block rpi1) blk])
         = Some (Inr r')" by blast
    have "block_loop sz ac rp rpi cur blocks = Some (Inr r')"
      by (subst block_loop.simps) (simp add: False sc e)
    then show ?thesis by blast
  qed
qed


text \<open>
  A z-matrix with distinct atoms is its own dictionary; the loops that fill a buffer
  by index succeed when the indices are in range.
\<close>

lemma update_fresh: "k \<notin> fst ` set al \<Longrightarrow> AList.update k v al = al @ [(k, v)]"
  by (induction al) auto

lemma dict_of_distinct:
  assumes "distinct (map fst g)"
  shows "dict_of g = g"
proof -
  have "foldl (\<lambda>d kv. AList.update (fst kv) (snd kv) d) d g = d @ g"
    if "distinct (map fst (d @ g))" for d
    using that
  proof (induction g arbitrary: d)
    case Nil
    then show ?case by simp
  next
    case (Cons kv g)
    have f: "fst kv \<notin> fst ` set d" using Cons.prems by auto
    have "AList.update (fst kv) (snd kv) d = d @ [kv]" using update_fresh[OF f] by simp
    moreover have "distinct (map fst ((d @ [kv]) @ g))" using Cons.prems by simp
    ultimately show ?case using Cons.IH[of "d @ [kv]"] by simp
  qed
  from this[of "[]"] assms show ?thesis unfolding dict_of_def by simp
qed

lemma fill_inverse_ok:
  "\<forall>j\<in>set js. j < length buf \<Longrightarrow> \<exists>b. fill_inverse i js buf = Inr b"
  by (induction js arbitrary: i buf) auto

lemma fill_anchors_ok:
  "i + length js \<le> length rp \<Longrightarrow> \<forall>j\<in>set js. j < length rpi \<Longrightarrow>
     \<exists>r. fill_anchors i js rp rpi = Inr r"
proof (induction js arbitrary: i rp rpi)
  case Nil
  then show ?case by simp
next
  case (Cons j js)
  have "\<exists>r. fill_anchors (i + 1) js (rp[i := j]) (rpi[j := i]) = Inr r"
    by (rule Cons.IH) (use Cons.prems in simp_all)
  then show ?case using Cons.prems by (simp add: not_le)
qed

lemma fill_permute_ok:
  "3 * (i + length js) \<le> length p \<Longrightarrow> \<forall>j\<in>set js. 3 * j + 2 < length pinv \<Longrightarrow>
     \<exists>r. fill_permute i js p pinv = Inr r"
proof (induction js arbitrary: i p pinv)
  case Nil
  then show ?case by simp
next
  case (Cons j js)
  have "\<exists>r. fill_permute (i + 1) js
           (p[3 * i + 0 := 3 * j + 0, 3 * i + 1 := 3 * j + 1, 3 * i + 2 := 3 * j + 2])
           (pinv[3 * j + 0 := 3 * i + 0, 3 * j + 1 := 3 * i + 1, 3 * j + 2 := 3 * i + 2]) = Inr r"
    by (rule Cons.IH) (use Cons.prems in simp_all)
  moreover have "\<not> (length p \<le> 3 * i + 2 \<or> length pinv \<le> 3 * j + 2)"
    using Cons.prems by (simp add: not_le)
  ultimately show ?case by (simp del: list_update.simps add_0_right)
qed

lemma distinct_bounded_length:
  fixes xs :: "nat list"
  assumes "distinct xs" and "\<forall>x\<in>set xs. x < n"
  shows "length xs \<le> n"
proof -
  have "set xs \<subseteq> {..<n}" using assms(2) by auto
  then have "card (set xs) \<le> card {..<n}" by (intro card_mono) simp_all
  then show ?thesis using distinct_card[OF assms(1)] by simp
qed

lemma quad_refs_quad_of:
  assumes "length (snd item) = 3"
  shows "quad_refs (quad_of item) = set (snd item)" and "fst (quad_of item) = fst item"
proof -
  obtain a rs where i: "item = (a, rs)" by (cases item)
  from assms i obtain r1 r2 r3 where rs: "rs = [r1, r2, r3]"
    by (cases rs; cases "tl rs"; cases "tl (tl rs)") auto
  show "quad_refs (quad_of item) = set (snd item)"
    unfolding i rs quad_of_def quad_refs_def by auto
  show "fst (quad_of item) = fst item" unfolding quad_of_def by simp
qed


text \<open>
  The index set-up returns for a well-formed topology: distinct anchors and z-matrix
  atoms inside the atom range, three references per row among the anchors and the
  z-matrix atoms, and no cycle.
\<close>

lemma quad_atoms_refs: "quad_atoms q = insert (fst q) (quad_refs q)"
  by (cases q) (auto simp: quad_atoms_def quad_refs_def)

lemma sorted_quads_topo:
  assumes tv: "topo_valid s {}" and sz: "sz = map quad_of s"
    and rows: "\<forall>item\<in>set s. length (snd item) = 3 \<and> set (snd item) \<subseteq> C \<union> fst ` set s"
  shows "\<forall>k<length sz. quad_refs (sz ! k) \<subseteq> C \<union> fst ` set (take k sz)"
proof (intro allI impI subsetI)
  fix k e assume k: "k < length sz" and e: "e \<in> quad_refs (sz ! k)"
  have ks: "k < length s" using k sz by simp
  then have it: "s ! k \<in> set s" by simp
  have "sz ! k = quad_of (s ! k)" using ks sz by simp
  then have es: "e \<in> set (snd (s ! k))"
    using e quad_refs_quad_of(1)[of "s ! k"] rows it by auto
  have ft: "fst ` set (take k sz) = fst ` set (take k s)"
    unfolding sz take_map by (simp add: image_image quad_of_def)
  show "e \<in> C \<union> fst ` set (take k sz)"
  proof (cases "e \<in> C")
    case True
    then show ?thesis by simp
  next
    case False
    with es rows it have "e \<in> fst ` set s" by blast
    then obtain j where j: "j < length s" "fst (s ! j) = e"
      by (auto simp: in_set_conv_nth)
    have "\<not> k \<le> j" using tv ks es j unfolding topo_valid_def by blast
    then have jk: "j < k" by simp
    then have "s ! j \<in> set (take k s)" using j(1) by (auto simp: in_set_conv_nth)
    then have "e \<in> fst ` set (take k s)" using j(2) by force
    then show ?thesis unfolding ft by simp
  qed
qed

lemma setup_indices_ok:
  assumes dc: "distinct cart" and cne: "cart \<noteq> []" and cb: "\<forall>c\<in>set cart. c < nd div 3"
    and dz: "distinct (map fst z)" and dj: "fst ` set z \<inter> set cart = {}"
    and rows: "\<forall>item\<in>set z. fst item < nd div 3 \<and> length (snd item) = 3
                 \<and> set (snd item) \<subseteq> set cart \<union> fst ` set z"
    and ac: "acyclic (dep_rel z)"
  shows "\<exists>ixs. setup_indices nd z cart = Some (Inr ixs)"
proof -
  let ?n = "nd div 3"
  have dict: "dict_of z = z" by (rule dict_of_distinct[OF dz])
  from topological_sort_acyclic[of z] ac dict obtain s where
    s: "topological_sort z = Inr s" by auto
  note T = topological_sort_Inr[OF s, unfolded dict]
  have rs: "\<forall>item\<in>set s. length (snd item) = 3 \<and> set (snd item) \<subseteq> set cart \<union> fst ` set s"
    using rows unfolding T(1) by simp
  have "\<forall>item\<in>set s. 3 \<le> length (snd item)" using rs by simp
  from to_quads_ok[OF this] obtain sz where q: "to_quads s = Inr sz" by blast
  have szq: "sz = map quad_of s" using to_quads_props[OF q] by simp
  have sort: "sort_z_indices z = Inr sz" unfolding sort_z_indices_def s using q by simp
  note S = sort_z_indices_props[OF sort]
  have keys: "\<forall>a\<in>set (map fst sz). a < ?n"
  proof
    fix a assume "a \<in> set (map fst sz)"
    then have "a \<in> fst ` set z" using S(2) by simp
    then show "a < ?n" using rows by auto
  qed
  have "\<forall>j\<in>set (map fst sz). j < length (replicate ?n (0::nat))" using keys by simp
  from fill_inverse_ok[OF this] obtain ats where
    fi: "fill_inverse 0 (map fst sz) (replicate ?n 0) = Inr ats" by blast
  have lc: "length cart \<le> ?n" by (rule distinct_bounded_length[OF dc cb])
  have "\<exists>r. fill_anchors 0 cart (replicate ?n 0) (replicate ?n 0) = Inr r"
    by (rule fill_anchors_ok) (use lc cb in simp_all)
  then obtain rp0 rpi0 where
    fa: "fill_anchors 0 cart (replicate ?n 0) (replicate ?n 0) = Inr (rp0, rpi0)" by force
  from fill_anchors_props[OF fa] have l0: "length rp0 = ?n" "length rpi0 = ?n" by simp_all
  have fc: "first_cart_ind ?n (map fst sz) cart = Inr (length cart)"
    unfolding first_cart_ind_def using cne by simp
  have k: "fst ` set sz \<inter> set cart = {}" using S(2) dj by simp
  have "\<forall>c\<in>set cart. c < length rpi0" using cb l0 by simp
  from loop_inv_init[OF S(1) k this]
  have inv: "loop_inv cart (length cart) sz rp0 rpi0 sz (set cart) rp0 rpi0 (length cart) [] []" .
  have topo: "\<forall>k<length sz. quad_refs (sz ! k) \<subseteq> set cart \<union> fst ` set (take k sz)"
    by (rule sorted_quads_topo[OF T(3) szq rs])
  have "distinct (cart @ map fst sz)" using dc S(1) k by auto
  moreover have "\<forall>x\<in>set (cart @ map fst sz). x < ?n" using cb keys by auto
  ultimately have "length (cart @ map fst sz) \<le> ?n" by (rule distinct_bounded_length)
  then have brp: "length cart + length sz \<le> length rp0" using l0 by simp
  have brpi: "\<forall>q\<in>set sz. \<forall>a\<in>quad_atoms q. a < length rpi0"
  proof (intro ballI)
    fix q a assume qs: "q \<in> set sz" and a: "a \<in> quad_atoms q"
    from qs obtain kk where kk: "kk < length sz" "q = sz ! kk" by (auto simp: in_set_conv_nth)
    have "quad_refs q \<subseteq> set cart \<union> fst ` set sz"
      using topo kk by (auto dest: in_set_takeD)
    moreover have "fst q \<in> fst ` set sz" using qs by simp
    ultimately have "a \<in> set cart \<union> fst ` set sz" using a unfolding quad_atoms_refs by auto
    then show "a < length rpi0" using cb keys l0 by auto
  qed
  from block_loop_total[OF inv S(1) k topo brp brpi] obtain r where
    bl: "block_loop sz (set cart) rp0 rpi0 (length cart) [] = Some (Inr r)" by blast
  have nk: "\<not> (\<exists>index\<in>set (map fst sz). ?n \<le> index)" using keys by (auto simp: not_le)
  have nc: "\<not> (\<exists>c\<in>set cart. ?n \<le> c)" using cb by (auto simp: not_le)
  show ?thesis
    unfolding setup_indices_def Let_def sort using nk nc fi fa fc bl by simp
qed


text \<open>The exceptions each stage of the construction can raise.\<close>

lemma topological_sort_error: "topological_sort g = Inl e \<Longrightarrow> e = RuntimeError"
proof -
  assume a: "topological_sort g = Inl e"
  have inv: "case topological_loop (dict_of g) [] of
            Inr r \<Rightarrow> distinct (map fst r) \<and> topo_valid r {} \<and> set r = set (dict_of g)
          | Inl e \<Rightarrow> e = RuntimeError \<and> \<not> acyclic (dep_rel (dict_of g))"
    by (rule topological_loop_inv) (simp_all add: distinct_dict_of topo_valid_def)
  from a have "topological_loop (dict_of g) [] = Inl e" by (simp add: topological_sort_def)
  with inv show ?thesis by simp
qed

lemma block_loop_error:
  assumes "block_loop sz ac rp rpi cur blocks = Some (Inl e)"
  shows "e = IndexError"
proof -
  define post where "post y = (case y of Inl e \<Rightarrow> e = IndexError | Inr r \<Rightarrow> True)"
    for y :: "error + quad list list \<times> nat list \<times> nat list"
  have "post (Inl e)"
  proof (rule block_loop.raw_induct[where P = "\<lambda>sz ac rp rpi cur blocks y. post y",
      OF _ assms], goal_cases)
    case (1 f sz ac rp rpi cur blocks y)
    show ?case
    proof (cases "sz = []")
      case True
      then have "y = Inr (blocks, rp, rpi)" using 1(2) by simp
      then show ?thesis unfolding post_def by simp
    next
      case False
      show ?thesis
      proof (cases "block_scan ac sz ([], {}, [], rp, rpi, cur)")
        case (Inl e')
        then have "y = Inl e'" using 1(2) False by simp
        moreover have "e' = IndexError" by (rule block_scan_error[OF Inl])
        ultimately show ?thesis unfolding post_def by simp
      next
        case (Inr r)
        obtain nz nc blk rp1 rpi1 cur1 where r: "r = (nz, nc, blk, rp1, rpi1, cur1)"
          by (cases r)
        have "f nz (ac \<union> nc) rp1 rpi1 cur1 (blocks @ [map (resolve_block rpi1) blk]) = Some y"
          using 1(2) False Inr r by simp
        then show ?thesis by (rule 1(1))
      qed
    qed
  qed
  then show ?thesis unfolding post_def by simp
qed

lemma fill_inverse_error: "fill_inverse i js buf = Inl e \<Longrightarrow> e = IndexError"
  by (induction js arbitrary: i buf) (auto split: if_splits)

lemma fill_anchors_error: "fill_anchors i js rp rpi = Inl e \<Longrightarrow> e = IndexError"
  by (induction js arbitrary: i rp rpi) (auto split: if_splits)

lemma fill_permute_error: "fill_permute i js p pinv = Inl e \<Longrightarrow> e = IndexError"
proof (induction js arbitrary: i p pinv)
  case Nil
  then show ?case by simp
next
  case (Cons j js)
  show ?case
  proof (cases "length p \<le> 3 * i + 2 \<or> length pinv \<le> 3 * j + 2")
    case True
    then show ?thesis using Cons.prems by simp
  next
    case False
    then have "fill_permute (i + 1) js
           (p[3 * i + 0 := 3 * j + 0, 3 * i + 1 := 3 * j + 1, 3 * i + 2 := 3 * j + 2])
           (pinv[3 * j + 0 := 3 * i + 0, 3 * j + 1 := 3 * i + 1, 3 * j + 2 := 3 * i + 2]) = Inl e"
      using Cons.prems by (simp del: list_update.simps add_0_right)
    then show ?thesis by (rule Cons.IH)
  qed
qed

lemma setup_indices_error:
  assumes "setup_indices nd z cart = Some (Inl e)"
  shows "e = RuntimeError \<or> e = IndexError \<or> e = NameError"
proof -
  have fc: "first_cart_ind n m c = Inl e' \<Longrightarrow> e' = NameError" for n m c e'
    unfolding first_cart_ind_def by (auto split: if_splits)
  have sz: "sort_z_indices z = Inl e' \<Longrightarrow> e' = RuntimeError \<or> e' = IndexError" for e'
    unfolding sort_z_indices_def
    by (auto split: sum.splits dest: topological_sort_error to_quads_error)
  from assms show ?thesis
    unfolding setup_indices_def Let_def
    by (auto split: sum.splits if_splits option.splits prod.splits
        dest: sz fc fill_inverse_error fill_anchors_error block_loop_error)
qed

lemma assign_ones_error: "assign_ones is buf = Inl e \<Longrightarrow> e = IndexError"
  by (induction "is" arbitrary: buf) (auto split: if_splits)

lemma shift_dih_loop_error:
  "shift_dih_loop bins dih_ix stds is st = Inl e \<Longrightarrow> e = IndexError \<or> e = RuntimeError"
proof (induction "is" arbitrary: st)
  case Nil
  then show ?case by simp
next
  case (Cons i "is")
  obtain tr means where st: "st = (tr, means)" by (cases st)
  from Cons.prems show ?case unfolding st
    by (auto simp: Let_def split: if_splits dest: Cons.IH)
qed

lemma fit_statistics_error:
  assumes "fit_statistics d ixs rs icd shift bins dstd = Inl e"
  shows "e = IndexError \<or> e = RuntimeError"
  using assms unfolding fit_statistics_def Let_def setup_std_dih_def
  by (auto split: if_splits sum.splits prod.splits
      dest: assign_ones_error shift_dih_loop_error)

lemma validate_data_Inl:
  "validate_data nd data = Inl e \<longleftrightarrow>
     e = ValueError \<and> (data = None \<or> (\<exists>d. data = Some d \<and> (length (shape d) \<noteq> 2 \<or> shape d ! 1 \<noteq> nd)))"
  unfolding validate_data_def Let_def by (auto split: option.splits)


lemma construct_ict_error:
  assumes "construct_ict nd z cart data icd shift bins dstd = Some (Inl e)"
  shows "e \<noteq> AssertionError"
    and "e = ValueError \<longleftrightarrow>
           (\<exists>ixs. setup_indices nd z cart = Some (Inr ixs))
           \<and> (data = None \<or> (\<exists>d. data = Some d \<and> (length (shape d) \<noteq> 2 \<or> shape d ! 1 \<noteq> nd)))"
proof -
  consider (a) "setup_indices nd z cart = Some (Inl e)"
    | (b) ixs where "setup_indices nd z cart = Some (Inr ixs)" "validate_data nd data = Inl e"
    | (c) ixs rs where "setup_indices nd z cart = Some (Inr ixs)" "validate_data nd data = Inr rs"
        "fit_statistics nd ixs rs icd shift bins dstd = Inl e"
    using assms unfolding construct_ict_def by (auto split: option.splits sum.splits)
  then have "e \<noteq> AssertionError
    \<and> (e = ValueError \<longleftrightarrow>
           (\<exists>ixs. setup_indices nd z cart = Some (Inr ixs))
           \<and> (data = None \<or> (\<exists>d. data = Some d \<and> (length (shape d) \<noteq> 2 \<or> shape d ! 1 \<noteq> nd))))"
  proof cases
    case a
    from setup_indices_error[OF a] a show ?thesis by auto
  next
    case b
    from b(2) have "e = ValueError"
      and "data = None \<or> (\<exists>d. data = Some d \<and> (length (shape d) \<noteq> 2 \<or> shape d ! 1 \<noteq> nd))"
      unfolding validate_data_Inl by simp_all
    with b(1) show ?thesis by auto
  next
    case c
    have nv: "\<not> (data = None \<or> (\<exists>d. data = Some d \<and> (length (shape d) \<noteq> 2 \<or> shape d ! 1 \<noteq> nd)))"
      using c(2) validate_data_Inl[of nd data ValueError]
      by (cases "validate_data nd data") auto
    from fit_statistics_error[OF c(3)] nv show ?thesis by auto
  qed
  then show "e \<noteq> AssertionError"
    and "e = ValueError \<longleftrightarrow>
           (\<exists>ixs. setup_indices nd z cart = Some (Inr ixs))
           \<and> (data = None \<or> (\<exists>d. data = Some d \<and> (length (shape d) \<noteq> 2 \<or> shape d ! 1 \<noteq> nd)))"
    by simp_all
qed

lemma construct_ict_ValueError:
  assumes "setup_indices nd z cart = Some (Inr ixs)"
    and "data = None \<or> (\<exists>d. data = Some d \<and> (length (shape d) \<noteq> 2 \<or> shape d ! 1 \<noteq> nd))"
  shows "construct_ict nd z cart data icd shift bins dstd = Some (Inl ValueError)"
proof -
  have "validate_data nd data = Inl ValueError" unfolding validate_data_Inl using assms(2) by simp
  then show ?thesis unfolding construct_ict_def assms(1) by simp
qed

lemma construct_complete_errors:
  "(construct_complete nd z cart data icd shift bins dstd = Some (Inl AssertionError)
      \<longleftrightarrow> length cart \<noteq> 3)
   \<and> (construct_complete nd z cart data icd shift bins dstd = Some (Inl ValueError)
      \<longleftrightarrow> length cart = 3 \<and> (\<exists>ixs. setup_indices nd z cart = Some (Inr ixs))
           \<and> (data = None \<or> (\<exists>d. data = Some d \<and> (length (shape d) \<noteq> 2 \<or> shape d ! 1 \<noteq> nd))))"
proof (cases "length cart = 3")
  case False
  then have "construct_complete nd z cart data icd shift bins dstd = Some (Inl AssertionError)"
    unfolding construct_complete_def by simp
  with False show ?thesis by simp
next
  case True
  let ?V = "data = None \<or> (\<exists>d. data = Some d \<and> (length (shape d) \<noteq> 2 \<or> shape d ! 1 \<noteq> nd))"
  let ?S = "\<exists>ixs. setup_indices nd z cart = Some (Inr ixs)"
  show ?thesis
  proof (cases "construct_ict nd z cart data icd shift bins dstd")
    case None
    then have "construct_complete nd z cart data icd shift bins dstd = None"
      unfolding construct_complete_def using True by simp
    moreover have "\<not> (?S \<and> ?V)"
    proof
      assume sv: "?S \<and> ?V"
      then obtain ixs where i: "setup_indices nd z cart = Some (Inr ixs)" by blast
      from sv have v: "?V" by blast
      from construct_ict_ValueError[OF i v, of icd shift bins dstd] None show False by simp
    qed
    ultimately show ?thesis using True by auto
  next
    case (Some r)
    show ?thesis
    proof (cases r)
      case (Inl e)
      have c: "construct_complete nd z cart data icd shift bins dstd = Some (Inl e)"
        unfolding construct_complete_def using True Some Inl by simp
      note E = construct_ict_error[OF Some[unfolded Inl]]
      show ?thesis unfolding c using True E by auto
    next
      case (Inr ic)
      note ri = Inr
      have nSV: "\<not> (?S \<and> ?V)"
      proof
        assume sv: "?S \<and> ?V"
        then obtain ixs where i: "setup_indices nd z cart = Some (Inr ixs)" by blast
        from sv have v: "?V" by blast
        from construct_ict_ValueError[OF i v, of icd shift bins dstd] Some ri show False by simp
      qed
      have "construct_complete nd z cart data icd shift bins dstd \<noteq> Some (Inl AssertionError)
          \<and> construct_complete nd z cart data icd shift bins dstd \<noteq> Some (Inl ValueError)"
      proof (cases "fill_permute 0 (cart @ map fst z) (replicate nd 0) (replicate nd 0)")
        case (Inl e)
        have "construct_complete nd z cart data icd shift bins dstd = Some (Inl e)"
          unfolding construct_complete_def using True Some ri Inl by simp
        moreover have "e = IndexError" by (rule fill_permute_error[OF Inl])
        ultimately show ?thesis by simp
      next
        case (Inr pp)
        obtain p pinv where pp: "pp = (p, pinv)" by (cases pp)
        have "\<exists>c. construct_complete nd z cart data icd shift bins dstd = Some (Inr c)"
          unfolding construct_complete_def using True Some ri Inr pp
          by (simp add: Let_def)
        then show ?thesis by auto
      qed
      then show ?thesis using True nSV by auto
    qed
  qed
qed


text \<open>The construction returns an object for a well-formed topology and a dataset that passes the validation.\<close>

lemma construct_complete_ok:
  assumes l3: "length cart = 3" and dc: "distinct cart" and cb: "\<forall>c\<in>set cart. c < nd div 3"
    and zne: "z \<noteq> []" and dz: "distinct (map fst z)" and dj: "fst ` set z \<inter> set cart = {}"
    and rows: "\<forall>item\<in>set z. fst item < nd div 3 \<and> length (snd item) = 3
                 \<and> set (snd item) \<subseteq> set cart \<union> fst ` set z"
    and ac: "acyclic (dep_rel z)"
    and data: "data = Some d" "length (shape d) = 2" "shape d ! 1 = nd"
    and icd: "\<forall>i\<in>set icd. i < length z" and sh: "shift \<longrightarrow> 0 < bins"
  shows "\<exists>c. construct_complete nd z cart data icd shift bins dstd = Some (Inr c)"
proof -
  let ?n = "nd div 3"
  have cne: "cart \<noteq> []" using l3 by auto
  from setup_indices_ok[OF dc cne cb dz dj rows ac] obtain ixs where
    s: "setup_indices nd z cart = Some (Inr ixs)" by blast
  note B = setup_indices_buffers[OF s]
  from setup_indicesD[OF s] obtain sz where so: "sort_z_indices z = Inr sz"
    and szi: "sorted_z_indices ixs = sz"
    by (auto simp: make_indices_def split: prod.splits)
  from sort_z_indices_props(3)[OF so] obtain srt where
    t: "topological_sort z = Inr srt" and szq: "sz = map quad_of srt" by blast
  have ss: "set srt = set z" using topological_sort_Inr(1)[OF t] dict_of_distinct[OF dz] by simp
  have n3: "3 * ?n \<le> nd" by simp
  have atoms: "a < ?n" if q: "q \<in> set sz" and a: "a \<in> quad_atoms q" for q a
  proof -
    from q obtain item where it: "item \<in> set z" and qi: "q = quad_of item"
      unfolding szq using ss by auto
    from rows it have r: "fst item < ?n" "length (snd item) = 3"
      "set (snd item) \<subseteq> set cart \<union> fst ` set z" by blast+
    have "a \<in> insert (fst item) (set (snd item))"
      using a unfolding quad_atoms_refs qi quad_refs_quad_of[OF r(2)] .
    then have "a \<in> set cart \<union> fst ` set z" using r(3) it by auto
    then show ?thesis using cb rows by auto
  qed
  have "fst ` set sz \<noteq> {}" using B(4) szi zne by simp
  then have szne: "sz \<noteq> []" by auto
  have ok: "fwd_index_ok ixs nd"
    unfolding fwd_index_ok_def B(1) B(5) szi
  proof (intro conjI ballI)
    show "rev sz \<noteq> []" using szne by simp
  next
    fix q a assume "q \<in> set (rev sz)" "a \<in> quad_atoms q"
    then have an: "a < ?n" using atoms by simp
    then show "a < length (make_inds_for_atom ?n)" by (simp add: make_inds_for_atom_def)
    fix c assume "c \<in> set (flat3 (make_inds_for_atom ?n ! a))"
    then have "c \<le> 3 * a + 2" using an by (auto simp: make_inds_for_atom_def flat3_def)
    then show "c < nd" using an n3 by simp
  qed
  have "card (fst ` set sz) = length sz" using B(3) szi distinct_card[of "map fst sz"] by simp
  moreover have "card (fst ` set z) = length z" using dz distinct_card[of "map fst z"] by simp
  ultimately have lsz: "length sz = length z" using B(4) szi by simp
  have "\<forall>i\<in>set icd. i < length (dih_indices ixs)" unfolding B(8) szi using icd lsz by simp
  from fit_statistics_ok[OF ok this sh] obtain t where
    f: "fit_statistics nd ixs (rows d) icd shift bins dstd = Inr t" by blast
  have v: "validate_data nd data = Inr (rows d)" unfolding validate_data_def using data by simp
  have ci: "construct_ict nd z cart data icd shift bins dstd = Some (Inr t)"
    unfolding construct_ict_def s v using f by simp
  have da: "distinct (cart @ map fst z)" using dc dz dj by auto
  have ba: "\<forall>x\<in>set (cart @ map fst z). x < ?n" using cb rows by auto
  have "length (cart @ map fst z) \<le> ?n" by (rule distinct_bounded_length[OF da ba])
  then have p1: "3 * (0 + length (cart @ map fst z)) \<le> length (replicate nd (0::nat))"
    using n3 by simp
  have p2: "\<forall>j\<in>set (cart @ map fst z). 3 * j + 2 < length (replicate nd (0::nat))"
  proof
    fix j assume "j \<in> set (cart @ map fst z)"
    then have "j < ?n" using ba by blast
    then show "3 * j + 2 < length (replicate nd (0::nat))" using n3 by simp
  qed
  from fill_permute_ok[OF p1 p2] obtain p pinv where
    fp: "fill_permute 0 (cart @ map fst z) (replicate nd 0) (replicate nd 0) = Inr (p, pinv)"
    by force
  show ?thesis unfolding construct_complete_def ci using l3 fp by (simp add: Let_def)
qed


text \<open>
  C9, as stated, has the construction fail with a validation error exactly when the
  dataset is absent or misshaped or the anchors are not three. With three anchors, no
  dataset and a z-matrix in which atom 3 refers to atom 4 and atom 4 to atom 3, the
  constructor raises the \<^verbatim>\<open>RuntimeError\<close> of \<^verbatim>\<open>topological_sort\<close>: the index set-up runs
  before \<^verbatim>\<open>_validate_data\<close>.
\<close>

theorem construction_validation_counterexample:
  "construct_complete 15 [(3, [4, 1, 0]), (4, [3, 1, 2])] [0, 1, 2] None [] False 100
       \<lparr>default_bond = 5 / 1000, default_angle = 15 / 100, default_dih = 2 / 10\<rparr>
     = Some (Inl RuntimeError)
   \<and> RuntimeError \<noteq> ValueError \<and> RuntimeError \<noteq> AssertionError"
proof -
  have "topological_sort [(3::nat, [4, 1, 0]), (4, [3, 1, 2])] = Inl RuntimeError"
    by (simp add: topological_sort_def dict_of_def topological_loop.simps)
  then show ?thesis
    by (simp add: construct_complete_def construct_ict_def setup_indices_def sort_z_indices_def)
qed

text \<open>
  C9, amended. The constructor of the complete transform raises the
  \<^verbatim>\<open>AssertionError\<close> of its first statement exactly when the anchors are not three.
  With three anchors it raises the \<^verbatim>\<open>ValueError\<close> of \<^verbatim>\<open>_validate_data\<close> exactly when
  the index set-up returns and the dataset is absent, not two-dimensional, or of a
  width other than \<^verbatim>\<open>dims\<close>; the set-up runs first, so its own exception or its not
  returning comes before the validation. For a well-formed acyclic topology the set-up
  returns, and the construction returns an object when moreover the dataset passes the
  validation, the positions in \<^verbatim>\<open>ind_circ_dih\<close> are positions of the statistics
  vector and \<^verbatim>\<open>hist_bins\<close> is positive if \<^verbatim>\<open>shift_dih\<close> is set. A failure is a value
  \<open>Inl\<close> of the result: it carries no object.
\<close>

theorem construction_validation:
  "(construct_complete nd z_mat cart data icd shift bins dstd = Some (Inl AssertionError)
      \<longleftrightarrow> length cart \<noteq> 3)
   \<and> (construct_complete nd z_mat cart data icd shift bins dstd = Some (Inl ValueError)
      \<longleftrightarrow> length cart = 3 \<and> (\<exists>ixs. setup_indices nd z_mat cart = Some (Inr ixs))
           \<and> (data = None \<or> (\<exists>d. data = Some d \<and> (length (shape d) \<noteq> 2 \<or> shape d ! 1 \<noteq> nd))))
   \<and> (length cart = 3 \<and> distinct cart \<and> (\<forall>c\<in>set cart. c < nd div 3)
       \<and> z_mat \<noteq> [] \<and> distinct (map fst z_mat) \<and> fst ` set z_mat \<inter> set cart = {}
       \<and> (\<forall>item\<in>set z_mat. fst item < nd div 3 \<and> length (snd item) = 3
                 \<and> set (snd item) \<subseteq> set cart \<union> fst ` set z_mat)
       \<and> acyclic (dep_rel z_mat)
       \<longrightarrow> (\<exists>ixs. setup_indices nd z_mat cart = Some (Inr ixs))
          \<and> ((\<exists>d. data = Some d \<and> length (shape d) = 2 \<and> shape d ! 1 = nd
                   \<and> length (rows d) = shape d ! 0 \<and> (\<forall>r\<in>set (rows d). length r = nd))
               \<and> (\<forall>i\<in>set icd. i < length z_mat) \<and> (shift \<longrightarrow> 0 < bins)
               \<longrightarrow> (\<exists>c. construct_complete nd z_mat cart data icd shift bins dstd
                          = Some (Inr c))))"
proof -
  have 3: "(\<exists>ixs. setup_indices nd z_mat cart = Some (Inr ixs))
          \<and> ((\<exists>d. data = Some d \<and> length (shape d) = 2 \<and> shape d ! 1 = nd
                   \<and> length (rows d) = shape d ! 0 \<and> (\<forall>r\<in>set (rows d). length r = nd))
               \<and> (\<forall>i\<in>set icd. i < length z_mat) \<and> (shift \<longrightarrow> 0 < bins)
               \<longrightarrow> (\<exists>c. construct_complete nd z_mat cart data icd shift bins dstd
                          = Some (Inr c)))"
    if w: "length cart = 3 \<and> distinct cart \<and> (\<forall>c\<in>set cart. c < nd div 3)
       \<and> z_mat \<noteq> [] \<and> distinct (map fst z_mat) \<and> fst ` set z_mat \<inter> set cart = {}
       \<and> (\<forall>item\<in>set z_mat. fst item < nd div 3 \<and> length (snd item) = 3
                 \<and> set (snd item) \<subseteq> set cart \<union> fst ` set z_mat)
       \<and> acyclic (dep_rel z_mat)"
  proof -
    from w have l3: "length cart = 3" and dc: "distinct cart"
      and cb: "\<forall>c\<in>set cart. c < nd div 3" and zne: "z_mat \<noteq> []"
      and dz: "distinct (map fst z_mat)" and dj: "fst ` set z_mat \<inter> set cart = {}"
      and rows: "\<forall>item\<in>set z_mat. fst item < nd div 3 \<and> length (snd item) = 3
                 \<and> set (snd item) \<subseteq> set cart \<union> fst ` set z_mat"
      and ac: "acyclic (dep_rel z_mat)"
      by - (elim conjE, assumption)+
    have cne: "cart \<noteq> []" using l3 by auto
    have a: "\<exists>ixs. setup_indices nd z_mat cart = Some (Inr ixs)"
      by (rule setup_indices_ok[OF dc cne cb dz dj rows ac])
    have b: "\<exists>c. construct_complete nd z_mat cart data icd shift bins dstd = Some (Inr c)"
      if v: "(\<exists>d. data = Some d \<and> length (shape d) = 2 \<and> shape d ! 1 = nd
                   \<and> length (rows d) = shape d ! 0 \<and> (\<forall>r\<in>set (rows d). length r = nd))
               \<and> (\<forall>i\<in>set icd. i < length z_mat) \<and> (shift \<longrightarrow> 0 < bins)"
    proof -
      from v obtain d where d: "data = Some d" "length (shape d) = 2" "shape d ! 1 = nd"
        and i: "\<forall>i\<in>set icd. i < length z_mat" and sh: "shift \<longrightarrow> 0 < bins" by blast
      show ?thesis by (rule construct_complete_ok[OF l3 dc cb zne dz dj rows ac d i sh])
    qed
    show ?thesis using a b by blast
  qed
  show ?thesis
    using construct_complete_errors[of nd z_mat cart data icd shift bins dstd] 3 by blast
qed


theorem construction_validation_witness:
  "\<exists>c. length [0, 1, 2 :: nat] = 3 \<and> distinct [0, 1, 2 :: nat]
     \<and> (\<forall>a\<in>set [0, 1, 2 :: nat]. a < 12 div 3)
     \<and> [(3 :: nat, [2 :: nat, 1, 0])] \<noteq> []
     \<and> distinct (map fst [(3 :: nat, [2 :: nat, 1, 0])])
     \<and> fst ` set [(3 :: nat, [2 :: nat, 1, 0])] \<inter> set [0, 1, 2] = {}
     \<and> (\<forall>item\<in>set [(3 :: nat, [2 :: nat, 1, 0])]. fst item < 12 div 3 \<and> length (snd item) = 3
            \<and> set (snd item) \<subseteq> set [0, 1, 2] \<union> fst ` set [(3 :: nat, [2 :: nat, 1, 0])])
     \<and> acyclic (dep_rel [(3 :: nat, [2 :: nat, 1, 0])])
     \<and> construct_complete 12 [(3, [2, 1, 0])] [0, 1, 2]
         (Some (Tensor [1, 12] [[0, 0, 0, 1, 0, 0, 0, 1, 0, 1, 1, 1]])) [] False 100
         \<lparr>default_bond = 5 / 1000, default_angle = 15 / 100, default_dih = 2 / 10\<rparr> = Some (Inr c)
     \<and> construct_complete 12 [(3, [2, 1, 0])] [0, 1, 2] None [] False 100
         \<lparr>default_bond = 5 / 1000, default_angle = 15 / 100, default_dih = 2 / 10\<rparr>
         = Some (Inl ValueError)
     \<and> construct_complete 12 [(3, [2, 1, 0])] [0, 1, 2]
         (Some (Tensor [1, 11] [[0, 0, 0, 1, 0, 0, 0, 1, 0, 1, 1]])) [] False 100
         \<lparr>default_bond = 5 / 1000, default_angle = 15 / 100, default_dih = 2 / 10\<rparr>
         = Some (Inl ValueError)
     \<and> length [0, 1 :: nat] \<noteq> 3
     \<and> construct_complete 12 [(3, [2, 1, 0])] [0, 1]
         (Some (Tensor [1, 12] [[0, 0, 0, 1, 0, 0, 0, 1, 0, 1, 1, 1]])) [] False 100
         \<lparr>default_bond = 5 / 1000, default_angle = 15 / 100, default_dih = 2 / 10\<rparr>
         = Some (Inl AssertionError)"
proof -
  let ?z = "[(3 :: nat, [2 :: nat, 1, 0])]"
  let ?dstd = "\<lparr>default_bond = 5 / 1000, default_angle = 15 / 100, default_dih = 2 / 10\<rparr>"
  let ?good = "Some (Tensor [1, 12] [[0, 0, 0, 1, 0, 0, 0, 1, 0, 1, 1, 1]])"
  let ?short = "Some (Tensor [1, 11] [[0, 0, 0, 1, 0, 0, 0, 1, 0, 1, 1]])"
  have h1: "length [0, 1, 2 :: nat] = 3" by simp
  have h2: "distinct [0, 1, 2 :: nat]" by simp
  have h3: "\<forall>a\<in>set [0, 1, 2 :: nat]. a < 12 div 3" by simp
  have h4: "?z \<noteq> []" by simp
  have h5: "distinct (map fst ?z)" by simp
  have h6: "fst ` set ?z \<inter> set [0, 1, 2] = {}" by simp
  have h7: "\<forall>item\<in>set ?z. fst item < 12 div 3 \<and> length (snd item) = 3
            \<and> set (snd item) \<subseteq> set [0, 1, 2] \<union> fst ` set ?z" by simp
  have "dep_rel ?z = {}" unfolding dep_rel_def by auto
  then have h8: "acyclic (dep_rel ?z)" by (simp add: acyclic_def)
  have w: "length [0, 1, 2 :: nat] = 3 \<and> distinct [0, 1, 2 :: nat]
       \<and> (\<forall>c\<in>set [0, 1, 2 :: nat]. c < 12 div 3)
       \<and> ?z \<noteq> [] \<and> distinct (map fst ?z) \<and> fst ` set ?z \<inter> set [0, 1, 2] = {}
       \<and> (\<forall>item\<in>set ?z. fst item < 12 div 3 \<and> length (snd item) = 3
                 \<and> set (snd item) \<subseteq> set [0, 1, 2] \<union> fst ` set ?z)
       \<and> acyclic (dep_rel ?z)"
    using h1 h2 h3 h4 h5 h6 h7 h8 by (intro conjI)
  have v: "(\<exists>d. ?good = Some d \<and> length (shape d) = 2 \<and> shape d ! 1 = 12
                   \<and> length (rows d) = shape d ! 0 \<and> (\<forall>r\<in>set (rows d). length r = 12))
               \<and> (\<forall>i\<in>set ([] :: nat list). i < length ?z) \<and> (False \<longrightarrow> 0 < (100 :: nat))"
    by simp
  note G = construction_validation[of 12 ?z "[0, 1, 2]" ?good "[]" False 100 ?dstd]
  from G w have s: "\<exists>ixs. setup_indices 12 ?z [0, 1, 2] = Some (Inr ixs)" by blast
  from G w v obtain c where
    c: "construct_complete 12 ?z [0, 1, 2] ?good [] False 100 ?dstd = Some (Inr c)" by blast
  note N = construction_validation[of 12 ?z "[0, 1, 2]" None "[]" False 100 ?dstd]
  from N h1 s have n: "construct_complete 12 ?z [0, 1, 2] None [] False 100 ?dstd
      = Some (Inl ValueError)" by blast
  note S = construction_validation[of 12 ?z "[0, 1, 2]" ?short "[]" False 100 ?dstd]
  have "\<exists>d. ?short = Some d \<and> (length (shape d) \<noteq> 2 \<or> shape d ! 1 \<noteq> 12)" by simp
  with S h1 s have sh: "construct_complete 12 ?z [0, 1, 2] ?short [] False 100 ?dstd
      = Some (Inl ValueError)" by blast
  have h9: "length [0, 1 :: nat] \<noteq> 3" by simp
  note A = construction_validation[of 12 ?z "[0, 1]" ?good "[]" False 100 ?dstd]
  from A h9 have a: "construct_complete 12 ?z [0, 1] ?good [] False 100 ?dstd
      = Some (Inl AssertionError)" by blast
  show ?thesis
    using h1 h2 h3 h4 h5 h6 h7 h8 c n sh h9 a by (intro exI[of _ c] conjI)
qed

section \<open>Dihedral wrapping\<close>

lemma fix_dih_val_range: "- pi \<le> fix_dih_val d \<and> fix_dih_val d < pi"
proof -
  have p: "0 < 2 * pi" by simp
  define q where "q = (d + pi) / (2 * pi)"
  have a: "of_int \<lfloor>q\<rfloor> \<le> q" "q < of_int \<lfloor>q\<rfloor> + 1" by linarith+
  have e: "d + pi = (2 * pi) * q" using p by (simp add: q_def)
  have "(2 * pi) * of_int \<lfloor>q\<rfloor> \<le> (2 * pi) * q"
    using a(1) p by (simp only: mult_le_cancel_left_pos)
  moreover have "(2 * pi) * q < (2 * pi) * (of_int \<lfloor>q\<rfloor> + 1)"
    using a(2) p by (simp only: mult_less_cancel_left_pos)
  ultimately show ?thesis
    unfolding fix_dih_val_def py_mod_def q_def[symmetric] e
    by (simp add: algebra_simps)
qed

lemma fix_dih_val_shift: "\<exists>k::int. fix_dih_val d = d + 2 * pi * of_int k"
  unfolding fix_dih_val_def py_mod_def
  by (rule exI[of _ "- \<lfloor>(d + pi) / (2 * pi)\<rfloor>"]) simp

lemma inverse_fix_dih_cases:
  "inverse_fix_dih d =
     (if d < - pi then d + 2 * pi else if d = - pi then pi
      else if d \<le> pi then d else d - 2 * pi)"
proof -
  have "0 < pi" by simp
  then show ?thesis
    unfolding inverse_fix_dih_def Let_def
    by (cases "d < pi"; cases "d < - pi"; cases "d = - pi"; simp; linarith)
qed

text \<open>
  C5, as stated, has the wrap of the forward normalisation return a value in the
  half-open interval \<open>(-\<pi>, \<pi>]\<close>. \<^verbatim>\<open>_fix_dih\<close> sends \<open>\<pi>\<close> to \<open>-\<pi>\<close>, which is outside
  that interval.
\<close>

theorem dihedral_wrap_counterexample:
  "fix_dih_val pi = - pi \<and> \<not> (- pi < fix_dih_val pi \<and> fix_dih_val pi \<le> pi)"
proof -
  have "fix_dih_val pi = - pi"
    by (simp add: fix_dih_val_def py_mod_def)
  then show ?thesis by simp
qed

text \<open>
  C5, amended: for every real dihedral \<open>d\<close> the forward wrap \<^verbatim>\<open>_fix_dih\<close>,
  \<^verbatim>\<open>(d + pi) % (2 pi) - pi\<close>, returns a value in \<open>[-\<pi>, \<pi>)\<close> that differs from \<open>d\<close>
  by an integer multiple of \<open>2\<pi>\<close>.
\<close>

theorem dihedral_wrap_amended:
  "- pi \<le> fix_dih_val d \<and> fix_dih_val d < pi
   \<and> (\<exists>k::int. fix_dih_val d = d + 2 * pi * of_int k)"
  using fix_dih_val_range[of d] fix_dih_val_shift[of d] by blast

end
